theory Spec2Isabelle
  imports Main "HOL-Library.Word"
begin

section \<open>JavaScript values the drivers handle\<close>

text \<open>
  A JavaScript string is a sequence of UTF-16 code units; \<open>length\<close>, \<open>slice\<close> and the
  regular expressions of the drivers all count code units. \<open>asc\<close> writes an ASCII
  literal of the source as such a string.
\<close>

type_synonym code_unit = "16 word"
type_synonym jsstring = "code_unit list"

definition asc :: "string \<Rightarrow> jsstring" where
  "asc s = map of_char s"

text \<open>
  \<open>\s\<close> of a regular expression: the white space and line terminators of ECMAScript.
  \<open>\d\<close> is the ten ASCII digits.
\<close>

definition is_space :: "code_unit \<Rightarrow> bool" where
  "is_space c \<longleftrightarrow>
     c \<in> {0x9, 0xA, 0xB, 0xC, 0xD, 0x20, 0xA0, 0x1680, 0x2028, 0x2029, 0x202F, 0x205F,
          0x3000, 0xFEFF}
     \<or> (0x2000 \<le> c \<and> c \<le> 0x200A)"

definition is_digit :: "code_unit \<Rightarrow> bool" where
  "is_digit c \<longleftrightarrow> 0x30 \<le> c \<and> c \<le> 0x39"

text \<open>\<open>s.split("\n")\<close>: the pieces between line feeds; one piece more than there are
  line feeds, so the empty string gives one empty piece.\<close>

fun split_nl :: "jsstring \<Rightarrow> jsstring list" where
  "split_nl [] = [[]]"
| "split_nl (c # cs) =
     (if c = 0xA then [] # split_nl cs
      else (case split_nl cs of [] \<Rightarrow> [[c]] | l # ls \<Rightarrow> (c # l) # ls))"

text \<open>\<open>s.split(/\s+/gm)\<close>: the pieces between maximal runs of white space. A string
  that starts (ends) with white space has an empty first (last) piece.\<close>

function split_ws :: "jsstring \<Rightarrow> jsstring list" where
  "split_ws s =
     (case dropWhile (\<lambda>c. \<not> is_space c) s of
        [] \<Rightarrow> [takeWhile (\<lambda>c. \<not> is_space c) s]
      | r # rs \<Rightarrow> takeWhile (\<lambda>c. \<not> is_space c) s # split_ws (dropWhile is_space rs))"
  by pat_completeness auto
termination
proof (relation "measure length")
  fix s :: jsstring and r rs
  assume "dropWhile (\<lambda>c. \<not> is_space c) s = r # rs"
  then have "length rs < length s"
    using length_dropWhile_le [of "\<lambda>c. \<not> is_space c" s] by simp
  moreover have "length (dropWhile is_space rs) \<le> length rs"
    by (rule length_dropWhile_le)
  ultimately show "(dropWhile is_space rs, s) \<in> measure length" by simp
qed simp

declare split_ws.simps [simp del]

text \<open>A table cell. \<open>a[i]\<close> past the end of an array is \<open>undefined\<close> (\<open>None\<close>), and
  \<open>"s" + undefined\<close> is \<open>"sundefined"\<close>.\<close>

datatype jsval = Undefined | Str jsstring | Num int

definition at_index :: "'a list \<Rightarrow> nat \<Rightarrow> 'a option" where
  "at_index xs i = (if i < length xs then Some (xs ! i) else None)"

definition cell :: "jsstring option \<Rightarrow> jsval" where
  "cell v = (case v of None \<Rightarrow> Undefined | Some s \<Rightarrow> Str s)"

definition str_of :: "jsstring option \<Rightarrow> jsstring" where
  "str_of v = (case v of None \<Rightarrow> asc ''undefined'' | Some s \<Rightarrow> s)"

section \<open>The FreeBSD route driver: \<open>execute_all\<close>\<close>

text \<open>
  \<^verbatim>\<open>
  function execute_all(arrayFn, callback) {
      if (arrayFn.length == 0) { callback([]); }
      var length = arrayFn.length;
      var results = new Array(length);
      var finished = 0;
      arrayFn.forEach(function (fn, index) {
          fn(function (result) {
              results[index] = result;
              if (++finished == length) { callback(results); }
          });
      });
  }
  \<close>
  The state of one call of \<open>execute_all\<close> is the array \<open>results\<close> (a hole and
  \<open>undefined\<close> are both \<open>None\<close>), the counter \<open>finished\<close>, and \<open>calls\<close>: the
  arguments of the invocations of \<open>callback\<close> made so far, oldest first.
\<close>

record 'a join =
  results :: "'a option list"
  finished :: nat
  calls :: "'a option list list"

text \<open>\<open>results[index] = result\<close>: an index past the end extends the array with holes.\<close>

definition js_set :: "'a option list \<Rightarrow> nat \<Rightarrow> 'a option \<Rightarrow> 'a option list" where
  "js_set xs i v =
     (if i < length xs then xs[i := v] else xs @ replicate (i - length xs) None @ [v])"

text \<open>Lines 59 to 64: the test for the empty array (with no \<open>return\<close> after it) and the
  three local variables.\<close>

definition execute_all_start :: "nat \<Rightarrow> 'a join" where
  "execute_all_start len =
     \<lparr>results = replicate len None, finished = 0,
      calls = (if len = 0 then [[]] else [])\<rparr>"

text \<open>Lines 66 to 71: the function handed to \<open>arrayFn[index]\<close>, invoked with \<open>result\<close>.\<close>

definition done_cb :: "nat \<Rightarrow> 'a join \<Rightarrow> nat \<times> 'a option \<Rightarrow> 'a join" where
  "done_cb len s e =
     (let rs = js_set (results s) (fst e) (snd e);
          f = finished s + 1
      in \<lparr>results = rs, finished = f,
          calls = (if f = len then calls s @ [rs] else calls s)\<rparr>)"

text \<open>
  A member of \<open>arrayFn\<close> is known to \<open>execute_all\<close> only by what it does with the function
  it is handed: \<open>sync fn\<close> are the results it passes to it before it returns, in order.
  Invocations made after \<open>forEach\<close> has returned (from the callbacks of the platform)
  are the list \<open>later\<close> of pairs (index, result), in the order they happen; an index
  for which \<open>forEach\<close> made no function cannot occur and is dropped.
\<close>

datatype 'a fn = Fn (sync: "'a option list")

definition invocations :: "'a fn list \<Rightarrow> (nat \<times> 'a option) list \<Rightarrow> (nat \<times> 'a option) list" where
  "invocations arrayFn later =
     concat (map (\<lambda>(index, fn). map (Pair index) (sync fn)) (zip [0..<length arrayFn] arrayFn))
     @ filter (\<lambda>e. fst e < length arrayFn) later"

definition invoke_all :: "nat \<Rightarrow> (nat \<times> 'a option) list \<Rightarrow> 'a join" where
  "invoke_all len evs = foldl (done_cb len) (execute_all_start len) evs"

definition execute_all :: "'a fn list \<Rightarrow> (nat \<times> 'a option) list \<Rightarrow> 'a join" where
  "execute_all arrayFn later = invoke_all (length arrayFn) (invocations arrayFn later)"

text \<open>The results \<open>arrayFn[i]\<close> passes to its callback, among the invocations \<open>evs\<close>.\<close>

definition passed :: "(nat \<times> 'a option) list \<Rightarrow> nat \<Rightarrow> 'a option list" where
  "passed evs i = map snd (filter (\<lambda>e. fst e = i) evs)"

section \<open>The host platform\<close>

text \<open>
  The object \<open>D\<close> (table, SSH and HTTP transport, \<open>D.success\<close>, \<open>D.failure\<close>) and
  \<open>console\<close> belong to the platform that runs a driver. The \<open>trace\<close> of a run lists,
  oldest first, what passes between the two: the calls the driver makes, and
  \<open>Callback n\<close> where the platform invokes the callback of the \<open>n\<close>-th request the
  driver has sent (counted from 0). \<open>table\<close> is the content of the one table the
  driver creates, a row per \<open>insertRecord\<close>: \<open>D.success(table)\<close> is recorded with the
  rows the table holds at that moment, \<open>D.success()\<close> with \<open>None\<close>. \<open>HtmlParse\<close> is a
  call of \<open>D.htmlParse\<close> and \<open>JsonParse\<close> one of \<open>JSON.parse\<close>, each on the body of a
  response.
\<close>

datatype error_type =
  GENERIC_ERROR | AUTHENTICATION_ERROR | RESOURCE_UNAVAILABLE | PARSING_ERROR

datatype jsexn = TypeError | SyntaxError

text \<open>The error object a callback of the platform receives.\<close>

datatype jserr = JsErr (message: "jsstring option") (code: "int option")

datatype logged = Text jsstring | Obj jserr | Thrown jsexn

record ssh_options =
  username :: "jsstring option"
  password :: "jsstring option"
  port :: "nat option"
  prompt :: "jsstring option"
  timeout :: nat
  command :: "jsstring option"

datatype http_body = Credentials jsstring jsstring | Soap jsstring

record http_config =
  url :: "jsstring option"
  body :: "http_body option"
  x_auth_token :: "jsstring option"

type_synonym row = "jsstring \<times> jsval list"

datatype event =
    Callback nat
  | ConsoleError logged
  | ConsoleInfo jsstring
  | SendSSHCommand ssh_options
  | HttpPost http_config
  | HttpGet http_config
  | HtmlParse
  | JsonParse
  | InsertRecord jsstring "jsval list"
  | Success "row list option"
  | Failure "error_type option"
  | Uncaught jsexn

record host =
  trace :: "event list"
  table :: "row list"

definition emit :: "event \<Rightarrow> ('a host_scheme) \<Rightarrow> ('a host_scheme)" where
  "emit e s = s\<lparr>trace := trace s @ [e]\<rparr>"

definition console_error :: "logged \<Rightarrow> ('a host_scheme) \<Rightarrow> ('a host_scheme)" where
  "console_error x = emit (ConsoleError x)"

definition failure :: "error_type option \<Rightarrow> ('a host_scheme) \<Rightarrow> ('a host_scheme)" where
  "failure t = emit (Failure t)"

definition insertRecord :: "jsstring \<Rightarrow> jsval list \<Rightarrow> ('a host_scheme) \<Rightarrow> ('a host_scheme)" where
  "insertRecord i cols s = emit (InsertRecord i cols) (s\<lparr>table := table s @ [(i, cols)]\<rparr>)"

definition success_table :: "('a host_scheme) \<Rightarrow> ('a host_scheme)" where
  "success_table s = emit (Success (Some (table s))) s"

text \<open>
  The source does not say whether \<open>D.failure\<close> returns to the script. The drivers are
  modelled as JavaScript reads: the call returns and the statements after it run. A
  platform that ends the script inside \<open>D.failure\<close> sees the trace up to the first such
  call; \<open>observed\<close> is the trace under either reading.
\<close>

fun upto_failure :: "event list \<Rightarrow> event list" where
  "upto_failure [] = []"
| "upto_failure (e # es) = (case e of Failure t \<Rightarrow> [e] | _ \<Rightarrow> e # upto_failure es)"

definition observed :: "bool \<Rightarrow> event list \<Rightarrow> event list" where
  "observed failure_ends_script t = (if failure_ends_script then upto_failure t else t)"

text \<open>The reply to an SSH command: the arguments \<open>(out, err)\<close> of its callback, and which
  command of the run it answers (0 for the first one sent).\<close>

record ssh_reply =
  request :: nat
  out :: "jsstring option"
  err :: "jserr option"

section \<open>The FreeBSD route driver\<close>

definition validate_cmd :: jsstring where
  "validate_cmd = asc ''netstat -r -n''"

definition route_v4_cmd :: jsstring where
  "route_v4_cmd = asc ''netstat -4 -r -n | tail -n +5''"

definition route_v6_cmd :: jsstring where
  "route_v6_cmd = asc ''netstat -6 -r -n | tail -n +5''"

text \<open>The module's variables: \<open>ssh_config\<close>, \<open>table\<close>, and the state of the one call of
  \<open>execute_all\<close> that \<open>get_status\<close> makes.\<close>

record freebsd = host +
  ssh_config :: ssh_options
  joined :: "unit join"

definition freebsd_init :: "jsstring \<times> jsstring \<Rightarrow> freebsd" where
  "freebsd_init creds =
     \<lparr>trace = [], table = [],
      ssh_config = \<lparr>username = Some (fst creds), password = Some (snd creds), port = Some 22,
                    prompt = None, timeout = 30000, command = None\<rparr>,
      joined = \<lparr>results = [], finished = 0, calls = []\<rparr>\<rparr>"

text \<open>\<open>exec_command\<close> up to the call of \<open>sendSSHCommand\<close>, which is recorded with the
  options as they are at the call.\<close>

definition exec_command :: "jsstring \<Rightarrow> freebsd \<Rightarrow> freebsd" where
  "exec_command cmd s =
     (let cfg = (ssh_config s)\<lparr>command := Some cmd\<rparr>
      in emit (SendSSHCommand cfg) (s\<lparr>ssh_config := cfg\<rparr>))"

text \<open>The callback \<open>exec_command\<close> hands to \<open>sendSSHCommand\<close>, up to its call of
  \<open>callback\<close>: the lines it passes on, or \<open>None\<close> when \<open>out.split\<close> throws because
  \<open>out\<close> is undefined. There is no \<open>return\<close> after \<open>D.failure()\<close>.\<close>

definition exec_command_cb ::
  "jsstring \<Rightarrow> jsstring option \<Rightarrow> jserr option \<Rightarrow> freebsd \<Rightarrow> freebsd \<times> jsstring list option" where
  "exec_command_cb cmd output error s =
     (let s1 = (case error of
                  None \<Rightarrow> s
                | Some e \<Rightarrow>
                    failure None
                      (console_error (Obj e)
                        (console_error (Text (asc ''error while executing command: '' @ cmd)) s)))
      in case output of
           None \<Rightarrow> (emit (Uncaught TypeError) s1, None)
         | Some text \<Rightarrow> (s1, Some (split_nl text)))"

text \<open>The body of \<open>lines.forEach\<close> in \<open>route\<close>.\<close>

definition route_record :: "jsstring \<Rightarrow> jsstring \<Rightarrow> row" where
  "route_record version line =
     (let route_data = split_ws line
      in (version @ asc ''>'' @ str_of (at_index route_data 0),
          [cell (at_index route_data 0), cell (at_index route_data 1),
           cell (at_index route_data 2), cell (at_index route_data 3)]))"

definition insert_route :: "jsstring \<Rightarrow> freebsd \<Rightarrow> jsstring \<Rightarrow> freebsd" where
  "insert_route version s line =
     insertRecord (fst (route_record version line)) (snd (route_record version line)) s"

text \<open>\<open>callback()\<close> at the end of \<open>route\<close>: the function \<open>execute_all\<close> made for this
  index, and through it, when it fires, the final callback of \<open>get_status\<close>.\<close>

definition route_done :: "nat \<Rightarrow> freebsd \<Rightarrow> freebsd" where
  "route_done index s =
     (let j = done_cb 2 (joined s) (index, None);
          s' = s\<lparr>joined := j\<rparr>
      in if length (calls (joined s)) < length (calls j) then success_table s' else s')"

definition route_reply :: "jsstring \<Rightarrow> jsstring \<Rightarrow> nat \<Rightarrow> ssh_reply \<Rightarrow> freebsd \<Rightarrow> freebsd" where
  "route_reply version cmd index r s =
     (case exec_command_cb cmd (out r) (err r) s of
        (s1, None) \<Rightarrow> s1
      | (s1, Some lines) \<Rightarrow> route_done index (foldl (insert_route version) s1 lines))"

text \<open>\<open>get_status\<close>: \<open>execute_all\<close> runs the two functions \<open>route\<close> returned, each of which
  sends its command at once; the replies come later, in any order. A reply to a
  command that was not sent does not occur.\<close>

definition freebsd_get_status_start :: "jsstring \<times> jsstring \<Rightarrow> freebsd" where
  "freebsd_get_status_start creds =
     exec_command route_v6_cmd
       (exec_command route_v4_cmd ((freebsd_init creds)\<lparr>joined := execute_all_start 2\<rparr>))"

definition freebsd_on_reply :: "freebsd \<Rightarrow> ssh_reply \<Rightarrow> freebsd" where
  "freebsd_on_reply s r =
     (if request r = 0 then route_reply (asc ''ip_v4'') route_v4_cmd 0 r (emit (Callback 0) s)
      else if request r = 1 then route_reply (asc ''ip_v6'') route_v6_cmd 1 r (emit (Callback 1) s)
      else s)"

definition freebsd_get_status :: "jsstring \<times> jsstring \<Rightarrow> ssh_reply list \<Rightarrow> freebsd" where
  "freebsd_get_status creds replies = foldl freebsd_on_reply (freebsd_get_status_start creds) replies"

text \<open>\<open>validate\<close>: one command, whose callback calls \<open>D.success()\<close>.\<close>

definition freebsd_validate_reply :: "freebsd \<Rightarrow> ssh_reply \<Rightarrow> freebsd" where
  "freebsd_validate_reply s r =
     (if request r = 0 then
        (case exec_command_cb validate_cmd (out r) (err r) (emit (Callback 0) s) of
           (s1, None) \<Rightarrow> s1
         | (s1, Some lines) \<Rightarrow> emit (Success None) s1)
      else s)"

definition freebsd_validate :: "jsstring \<times> jsstring \<Rightarrow> ssh_reply list \<Rightarrow> freebsd" where
  "freebsd_validate creds replies =
     foldl freebsd_validate_reply (exec_command validate_cmd (freebsd_init creds)) replies"

text \<open>The commands a trace sends, in order.\<close>

fun sent :: "event list \<Rightarrow> jsstring option list" where
  "sent [] = []"
| "sent (e # es) = (case e of SendSSHCommand cfg \<Rightarrow> command cfg # sent es | _ \<Rightarrow> sent es)"

text \<open>
  The rows the claim about \<open>route\<close> describes, in the words of the claim and not of the
  code. The lines of a text are its runs of characters other than a line feed, each
  ended by a line feed or by the end of the text; a final line feed ends the last
  line and begins no other. The fields of a line are its maximal runs of characters
  that are not white space. \<open>claimed_rows\<close> has one row for each line: its id is the
  version, \<open>>\<close> and the first field, its four columns are the first four fields, and
  a field the line does not have is \<open>undefined\<close>.
\<close>

function lines_of :: "jsstring \<Rightarrow> jsstring list" where
  "lines_of [] = []"
| "lines_of (c # cs) =
     takeWhile (\<lambda>x. x \<noteq> 0xA) (c # cs) # lines_of (drop 1 (dropWhile (\<lambda>x. x \<noteq> 0xA) (c # cs)))"
  by pat_completeness auto
termination
proof (relation "measure length")
  fix c :: code_unit and cs
  have "length (dropWhile (\<lambda>x. x \<noteq> 0xA) (c # cs)) \<le> length (c # cs)"
    by (rule length_dropWhile_le)
  then show "(drop 1 (dropWhile (\<lambda>x. x \<noteq> 0xA) (c # cs)), c # cs) \<in> measure length"
    by (cases "dropWhile (\<lambda>x. x \<noteq> 0xA) (c # cs)") simp_all
qed simp

declare lines_of.simps(2) [simp del]

fun fields_of :: "jsstring \<Rightarrow> jsstring list" where
  "fields_of [] = []"
| "fields_of (c # cs) =
     (if is_space c then fields_of cs
      else if cs = [] \<or> is_space (hd cs) then [c] # fields_of cs
      else (case fields_of cs of [] \<Rightarrow> [[c]] | w # ws \<Rightarrow> (c # w) # ws))"

definition claimed_rows :: "jsstring \<Rightarrow> jsstring \<Rightarrow> row list" where
  "claimed_rows version text =
     map (\<lambda>line. (version @ asc ''>'' @ str_of (at_index (fields_of line) 0),
                  map (\<lambda>i. cell (at_index (fields_of line) i)) [0, 1, 2, 3]))
       (lines_of text)"

text \<open>
  The rows of the claim as amended. There is a row for every piece of the output
  between line feeds: for every line, and for the empty piece that follows a final
  line feed or makes up an empty output. The columns are taken from the fields of the
  piece, with an empty string before them when the piece is empty or begins with
  white space, and one after them when it ends with white space. An output is \<open>tidy\<close>
  when it is not empty, does not end with a line feed, and none of its lines is
  empty or has white space at either end. \<open>inserted\<close> are the calls of \<open>insertRecord\<close>
  that insert given rows, and \<open>ok_reply\<close> is the reply of a command that succeeded with
  the given output.
\<close>

definition pieces :: "jsstring \<Rightarrow> jsstring list" where
  "pieces text = lines_of text @ (if text = [] \<or> last text = 0xA then [[]] else [])"

definition split_fields :: "jsstring \<Rightarrow> jsstring list" where
  "split_fields line =
     (if line = [] \<or> is_space (hd line) then [[]] else [])
     @ fields_of line
     @ (if line \<noteq> [] \<and> is_space (last line) then [[]] else [])"

definition route_rows :: "jsstring \<Rightarrow> jsstring \<Rightarrow> row list" where
  "route_rows version text =
     map (\<lambda>line. (version @ asc ''>'' @ hd (split_fields line),
                  map (\<lambda>i. cell (at_index (split_fields line) i)) [0, 1, 2, 3]))
       (pieces text)"

definition tidy :: "jsstring \<Rightarrow> bool" where
  "tidy text \<longleftrightarrow>
     text \<noteq> [] \<and> last text \<noteq> 0xA
     \<and> list_all (\<lambda>l. l \<noteq> [] \<and> \<not> is_space (hd l) \<and> \<not> is_space (last l)) (lines_of text)"

definition inserted :: "row list \<Rightarrow> event list" where
  "inserted rows = map (\<lambda>r. InsertRecord (fst r) (snd r)) rows"

definition ok_reply :: "nat \<Rightarrow> jsstring \<Rightarrow> ssh_reply" where
  "ok_reply n text = \<lparr>request = n, out = Some text, err = None\<rparr>"

text \<open>\<open>quiet s s'\<close>: from \<open>s\<close> to \<open>s'\<close> the trace has grown, by events that are no
  commands.\<close>

definition quiet :: "('a host_scheme) \<Rightarrow> ('a host_scheme) \<Rightarrow> bool" where
  "quiet s s' \<longleftrightarrow> (\<exists>es. trace s' = trace s @ es \<and> sent es = [])"

section \<open>Regular expressions of the Windows latency driver\<close>

text \<open>
  The two patterns of the driver are sequences of literal text, \<open>\d+\<close> and \<open>(\d+)\<close>.
  \<open>match_here\<close> matches such a sequence at the head of a string as a backtracking
  matcher does: \<open>\d+\<close> takes the longest run of digits first and gives digits back
  one at a time while the rest of the pattern fails. It returns the length of the
  match and the captured groups. \<open>exec\<close> tries the start positions from left to right
  and returns the array of \<open>RegExp.prototype.exec\<close>: the matched text, then the groups;
  \<open>None\<close> is its \<open>null\<close>.
\<close>

datatype re = Lit jsstring | Digits | DigitsGroup

primrec first_some :: "('a \<Rightarrow> 'b option) \<Rightarrow> 'a list \<Rightarrow> 'b option" where
  "first_some f [] = None"
| "first_some f (x # xs) = (case f x of Some y \<Rightarrow> Some y | None \<Rightarrow> first_some f xs)"

primrec match_here :: "re list \<Rightarrow> jsstring \<Rightarrow> (nat \<times> jsstring list) option" where
  "match_here [] s = Some (0, [])"
| "match_here (r # rs) s =
     (case r of
        Lit l \<Rightarrow>
          (if take (length l) s = l
           then map_option (\<lambda>(n, groups). (length l + n, groups)) (match_here rs (drop (length l) s))
           else None)
      | Digits \<Rightarrow>
          first_some
            (\<lambda>k. map_option (\<lambda>(n, groups). (k + n, groups)) (match_here rs (drop k s)))
            (rev [1 ..< Suc (length (takeWhile is_digit s))])
      | DigitsGroup \<Rightarrow>
          first_some
            (\<lambda>k. map_option (\<lambda>(n, groups). (k + n, take k s # groups)) (match_here rs (drop k s)))
            (rev [1 ..< Suc (length (takeWhile is_digit s))]))"

definition exec :: "re list \<Rightarrow> jsstring \<Rightarrow> jsstring list option" where
  "exec p s =
     first_some
       (\<lambda>k. map_option (\<lambda>(n, groups). take n (drop k s) # groups) (match_here p (drop k s)))
       [0 ..< Suc (length s)]"

text \<open>\<^verbatim>\<open>/Average = (\d+)ms/\<close> and
  \<^verbatim>\<open>/Packets: Sent = \d+, Received = \d+, Lost = (\d+)/\<close>.\<close>

definition latency_re :: "re list" where
  "latency_re = [Lit (asc ''Average = ''), DigitsGroup, Lit (asc ''ms'')]"

definition packet_loss_re :: "re list" where
  "packet_loss_re =
     [Lit (asc ''Packets: Sent = ''), Digits, Lit (asc '', Received = ''), Digits,
      Lit (asc '', Lost = ''), DigitsGroup]"

text \<open>
  What the two patterns match, in the words of the expressions: \<open>digits\<close> is a match
  of \<open>\d+\<close>; \<open>has_latency s\<close> says that \<open>s\<close> contains a substring matching
  \<^verbatim>\<open>/Average = (\d+)ms/\<close>, \<open>has_packet_loss s\<close> one matching the other pattern.
  \<open>ends_digits s\<close>: \<open>s\<close> does not go on with a digit.
\<close>

definition digits :: "jsstring \<Rightarrow> bool" where
  "digits d \<longleftrightarrow> d \<noteq> [] \<and> list_all is_digit d"

definition ends_digits :: "jsstring \<Rightarrow> bool" where
  "ends_digits s \<longleftrightarrow> (case s of [] \<Rightarrow> True | c # cs \<Rightarrow> \<not> is_digit c)"

definition latency_text :: "jsstring \<Rightarrow> jsstring" where
  "latency_text d = asc ''Average = '' @ d @ asc ''ms''"

definition packet_loss_text :: "jsstring \<Rightarrow> jsstring \<Rightarrow> jsstring \<Rightarrow> jsstring" where
  "packet_loss_text a b c =
     asc ''Packets: Sent = '' @ a @ asc '', Received = '' @ b @ asc '', Lost = '' @ c"

definition has_latency :: "jsstring \<Rightarrow> bool" where
  "has_latency s \<longleftrightarrow> (\<exists>pre d post. digits d \<and> s = pre @ latency_text d @ post)"

definition has_packet_loss :: "jsstring \<Rightarrow> bool" where
  "has_packet_loss s \<longleftrightarrow>
     (\<exists>pre a b c post. digits a \<and> digits b \<and> digits c \<and> s = pre @ packet_loss_text a b c @ post)"

section \<open>The Windows latency driver\<close>

definition pktno :: jsstring where
  "pktno = asc ''2''"

definition ipAddresses :: "jsstring list" where
  "ipAddresses =
     [asc ''8.8.8.8'', asc ''1.1.1.1'', asc ''192.168.0.1'', asc ''192.168.0.2'',
      asc ''192.168.0.3'']"

text \<open>The module's variables \<open>sshCommandOptions\<close> and \<open>tableColumns\<close> (the \<open>table\<close> of
  the host record), and the local \<open>count\<close> of the call of \<open>get_status\<close>.\<close>

record windows = host +
  sshCommandOptions :: ssh_options
  count :: nat

definition windows_init :: windows where
  "windows_init =
     \<lparr>trace = [], table = [],
      sshCommandOptions = \<lparr>username = None, password = None, port = None,
                            prompt = Some (asc '']''), timeout = 30000, command = None\<rparr>,
      count = 0\<rparr>"

definition checkSshError :: "jserr \<Rightarrow> windows \<Rightarrow> windows" where
  "checkSshError e s =
     (let s1 = (case message e of
                  None \<Rightarrow> s
                | Some m \<Rightarrow> if m = [] then s else console_error (Text m) s);
          s2 = (if code e = Some 5 then failure (Some AUTHENTICATION_ERROR) s1 else s1);
          s3 = console_error (Obj e) s2
      in failure (Some GENERIC_ERROR) s3)"

text \<open>The body of \<open>ipAddresses.forEach\<close> up to \<open>sendSSHCommand\<close>.\<close>

definition ping :: "windows \<Rightarrow> jsstring \<Rightarrow> windows" where
  "ping s ipAddress =
     (let s1 = emit (ConsoleInfo (asc ''Pinging '' @ ipAddress @ asc '' ... '')) s;
          cmd = asc ''ping -n '' @ pktno @ asc '' '' @ ipAddress;
          opts = (sshCommandOptions s1)\<lparr>command := Some cmd\<rparr>
      in emit (SendSSHCommand opts) (s1\<lparr>sshCommandOptions := opts\<rparr>))"

text \<open>\<open>count++\<close> and the test that follows it.\<close>

definition count_up :: "windows \<Rightarrow> windows" where
  "count_up s =
     (let s' = s\<lparr>count := count s + 1\<rparr>
      in if count s' = length ipAddresses then success_table s' else s')"

text \<open>
  \<open>resultCallback\<close> of the address \<open>ipAddress\<close>. \<open>hash\<close> stands for
  \<open>D.crypto.hash(_, "sha256", null, "hex")\<close> of the platform. Reading index 1 of a
  \<open>null\<close> match throws a TypeError, which ends the callback before \<open>count++\<close>;
  nothing in the driver catches it.
\<close>

definition resultCallback ::
  "(jsstring \<Rightarrow> jsstring) \<Rightarrow> jsstring \<Rightarrow> jsstring option \<Rightarrow> jserr option \<Rightarrow> windows \<Rightarrow> windows" where
  "resultCallback hash ipAddress output error s =
     (case error of
        Some e \<Rightarrow> count_up (checkSshError e s)
      | None \<Rightarrow>
          (case exec latency_re (str_of output) of
             None \<Rightarrow> emit (Uncaught TypeError) s
           | Some matchLatency \<Rightarrow>
               (case exec packet_loss_re (str_of output) of
                  None \<Rightarrow> emit (Uncaught TypeError) s
                | Some matchPacketLoss \<Rightarrow>
                    count_up
                      (insertRecord (take 50 (hash ipAddress))
                         [Str ipAddress, cell (at_index matchLatency 1),
                          cell (at_index matchPacketLoss 1)] s))))"

definition windows_get_status_start :: windows where
  "windows_get_status_start = foldl ping (windows_init\<lparr>count := 0\<rparr>) ipAddresses"

definition windows_on_reply :: "(jsstring \<Rightarrow> jsstring) \<Rightarrow> windows \<Rightarrow> ssh_reply \<Rightarrow> windows" where
  "windows_on_reply hash s r =
     (if request r < length ipAddresses
      then resultCallback hash (ipAddresses ! request r) (out r) (err r)
             (emit (Callback (request r)) s)
      else s)"

definition windows_get_status :: "(jsstring \<Rightarrow> jsstring) \<Rightarrow> ssh_reply list \<Rightarrow> windows" where
  "windows_get_status hash replies = foldl (windows_on_reply hash) windows_get_status_start replies"

text \<open>The number of calls of \<open>D.success\<close> in a trace.\<close>

definition successes :: "event list \<Rightarrow> nat" where
  "successes t = length (filter (\<lambda>e. case e of Success x \<Rightarrow> True | _ \<Rightarrow> False) t)"

text \<open>A reply with which \<open>resultCallback\<close> runs to its end and counts: it answers one
  of the commands sent, carries no error, and its output has a match for both
  patterns, so that the callback does not throw.\<close>

definition returns_normally :: "ssh_reply \<Rightarrow> bool" where
  "returns_normally r \<longleftrightarrow>
     request r < length ipAddresses \<and> err r = None
     \<and> has_latency (str_of (out r)) \<and> has_packet_loss (str_of (out r))"

section \<open>HTTP replies\<close>

text \<open>
  The arguments \<open>(error, response, body)\<close> of the callback of an HTTP request, and which
  request of the run it answers. Of \<open>response\<close> the drivers read the status code and two
  headers; \<open>None\<close> is an undefined \<open>response\<close>. The type of \<open>content\<close> says what a
  driver reads of a body.
\<close>

record http_response =
  statusCode :: nat
  auth_token :: "jsstring option"
  command_status :: "jsstring option"

record 'b http_reply =
  req :: nat
  error :: "jserr option"
  response :: "http_response option"
  content :: 'b

section \<open>The ESXi services driver\<close>

text \<open>
  \<open>D.htmlParse\<close> and the selectors applied to its result are the platform's. A response
  body is modelled by the texts the selectors of the driver find in it: of
  \<open>$('returnval').find('key').first()\<close>, of \<open>$('returnval')\<close>, of
  \<open>$('returnval').find('ManagedObjectReference').first()\<close>, and for every element the
  selector of \<open>generateTabelOutput\<close> matches, the texts of its \<open>key\<close>, \<open>label\<close>,
  \<open>required\<close>, \<open>uninstallable\<close>, \<open>running\<close> and \<open>policy\<close> elements. A selector that finds
  nothing has the empty text.
\<close>

record soap_service =
  svc_key :: jsstring
  svc_label :: jsstring
  svc_required :: jsstring
  svc_uninstallable :: jsstring
  svc_running :: jsstring
  svc_policy :: jsstring

record soap_body =
  returnval_key :: jsstring
  returnval :: jsstring
  returnval_ref :: jsstring
  services :: "soap_service list"

text \<open>The module has the table only. The promise chain of \<open>get_status\<close> is sequential:
  \<open>issued\<close> counts the requests sent, and \<open>waiting\<close> says that the promise of the last
  one is still pending; the promises of the requests before it have been resolved.\<close>

record esxi = host +
  issued :: nat
  waiting :: bool

definition esxi_init :: esxi where
  "esxi_init = \<lparr>trace = [], table = [], issued = 0, waiting = False\<rparr>"

definition createSoapPayload :: "jsstring \<Rightarrow> jsstring" where
  \<open>createSoapPayload soapBody =
     asc ''<?xml version="1.0" encoding="UTF-8"?><soapenv:Envelope xmlns:soapenv="http://schemas.xmlsoap.org/soap/envelope/" xmlns:vim25="urn:vim25"><soapenv:Body>''
     @ soapBody @ asc ''</soapenv:Body></soapenv:Envelope>''\<close>

text \<open>\<open>sendSoapRequest\<close> up to \<open>D.device.http.post\<close>.\<close>

definition sendSoapRequest :: "jsstring \<Rightarrow> esxi \<Rightarrow> esxi" where
  "sendSoapRequest payload s =
     emit (HttpPost \<lparr>url = Some (asc ''/sdk''), body = Some (Soap payload), x_auth_token = None\<rparr>)
       (s\<lparr>issued := issued s + 1, waiting := True\<rparr>)"

text \<open>The callback \<open>sendSoapRequest\<close> hands to \<open>post\<close>, with the function \<open>extractData\<close>
  it was given: the new state, and the value the promise is resolved with, if it is.\<close>

definition soap_callback ::
  "(soap_body \<Rightarrow> esxi \<Rightarrow> esxi \<times> 'r) \<Rightarrow> soap_body http_reply \<Rightarrow> esxi \<Rightarrow> esxi \<times> 'r option" where
  "soap_callback extractData r s =
     (case error r of
        Some e \<Rightarrow> (failure (Some GENERIC_ERROR) (console_error (Obj e) s), None)
      | None \<Rightarrow>
          (case response r of
             None \<Rightarrow> (failure (Some RESOURCE_UNAVAILABLE) s, None)
           | Some resp \<Rightarrow>
               if statusCode resp = 400 then (failure (Some AUTHENTICATION_ERROR) s, None)
               else if statusCode resp \<noteq> 200 then (failure (Some GENERIC_ERROR) s, None)
               else (case extractData (content r) s of (s', result) \<Rightarrow> (s', Some result))))"

definition getSessionKey :: "soap_body \<Rightarrow> esxi \<Rightarrow> esxi \<times> jsstring" where
  "getSessionKey soapResponse s = (emit HtmlParse s, returnval_key soapResponse)"

definition esxi_login :: "jsstring \<times> jsstring \<Rightarrow> esxi \<Rightarrow> esxi" where
  \<open>esxi_login creds s =
     sendSoapRequest
       (createSoapPayload
          (asc ''<vim25:Login>''
           @ asc ''   <_this type="SessionManager">ha-sessionmgr</_this>''
           @ asc ''   <userName>'' @ fst creds @ asc ''</userName>''
           @ asc ''   <password>'' @ snd creds @ asc ''</password>''
           @ asc ''</vim25:Login>'')) s\<close>









text \<open>
  \<open>get_status\<close>: \<open>login\<close> is sent at once. Each later step of the chain runs when the
  promise of the step before is resolved, with the value it is resolved with; the last
  one is \<open>D.success\<close>, called with the table \<open>generateTabelOutput\<close> returns. A promise
  that is not resolved ends the chain: nothing in \<open>sendSoapRequest\<close> rejects it, so
  the \<open>catch\<close> of \<open>get_status\<close> never runs. A reply invokes the callback of a request
  that has been sent, which runs the function \<open>extractData\<close> it was given and resolves
  the promise of the request; resolving a promise that is resolved already does
  nothing, so that the chain goes on only from the promise that is pending.
\<close>

definition esxi_get_status_start :: "jsstring \<times> jsstring \<Rightarrow> esxi" where
  "esxi_get_status_start creds = esxi_login creds esxi_init"



section \<open>The Dell PowerVault driver: \<open>sanitize\<close>\<close>

definition recordIdReservedWords :: "jsstring list" where
  "recordIdReservedWords =
     [asc ''?'', asc ''*'', asc ''%'', asc ''table'', asc ''column'', asc ''history'']"

text \<open>\<open>output.replace(recordIdSanitisationRegex, '')\<close>: from left to right, the first
  alternative that matches at a position is removed and the search goes on behind it.\<close>

function strip_reserved :: "jsstring \<Rightarrow> jsstring" where
  "strip_reserved [] = []"
| "strip_reserved (c # cs) =
     (case find (\<lambda>w. take (length w) (c # cs) = w) recordIdReservedWords of
        Some w \<Rightarrow> strip_reserved (drop (length w) (c # cs))
      | None \<Rightarrow> c # strip_reserved cs)"
  by pat_completeness auto
termination
proof (relation "measure length")
  fix c :: code_unit and cs w
  assume "find (\<lambda>w. take (length w) (c # cs) = w) recordIdReservedWords = Some w"
  then have "w \<in> set recordIdReservedWords"
    by (auto simp: find_Some_iff in_set_conv_nth)
  then have "0 < length w"
    by (auto simp: recordIdReservedWords_def asc_def)
  then show "(drop (length w) (c # cs), c # cs) \<in> measure length" by simp
qed simp_all

text \<open>\<open>replace(/\s+/g, '-')\<close>: every maximal run of white space becomes one hyphen.\<close>

function collapse_ws :: "jsstring \<Rightarrow> jsstring" where
  "collapse_ws [] = []"
| "collapse_ws (c # cs) =
     (if is_space c then 0x2D # collapse_ws (dropWhile is_space cs) else c # collapse_ws cs)"
  by pat_completeness auto
termination
  by (relation "measure length") (simp_all add: le_imp_less_Suc length_dropWhile_le)

text \<open>
  \<open>toLowerCase\<close> maps code points by the Unicode case tables. The model has the part of
  them that the properties below are about: the letters A to Z, and U+0130 (capital I
  with dot above), the one character whose lower case is longer than itself: U+0069
  followed by U+0307. Every other code unit is left as it is.
\<close>

definition lower_unit :: "code_unit \<Rightarrow> jsstring" where
  "lower_unit c =
     (if 0x41 \<le> c \<and> c \<le> 0x5A then [c + 0x20]
      else if c = 0x130 then [0x69, 0x307]
      else [c])"

definition toLowerCase :: "jsstring \<Rightarrow> jsstring" where
  "toLowerCase s = concat (map lower_unit s)"

definition sanitize :: "jsstring \<Rightarrow> jsstring" where
  "sanitize output = toLowerCase (collapse_ws (take 50 (strip_reserved output)))"

section \<open>The Dell PowerVault driver\<close>

text \<open>
  A response body is JSON text. \<open>Unparsable\<close> is a body on which \<open>JSON.parse\<close> throws,
  \<open>Falsy\<close> one that parses to \<open>null\<close>, \<open>false\<close>, 0 or the empty string, and \<open>Object\<close> one
  that parses to an object, of which the model has the properties the driver reads:
  \<open>Members\<close> and \<open>Drives\<close> are arrays of objects, given by the \<open>@odata.id\<close> of each entry;
  \<open>Placement\<close> is \<open>PhysicalLocation.Placement\<close> with its \<open>Rack\<close> and \<open>RackOffset\<close>, and
  \<open>Status\<close> has \<open>State\<close> and \<open>Health\<close>. \<open>None\<close> is a property the object does not have.
\<close>

record redfish =
  Members :: "jsstring option list option"
  Name :: "jsstring option"
  Drives :: "jsstring option list option"
  SerialNumber :: jsval
  Placement :: "(jsval \<times> jsval) option"
  Status :: "(jsval \<times> jsval) option"

datatype json_body = Unparsable | Falsy | Object redfish

text \<open>A string property in a condition: undefined and the empty string are falsy.\<close>

definition truthy :: "jsstring option \<Rightarrow> bool" where
  "truthy v \<longleftrightarrow> (case v of None \<Rightarrow> False | Some s \<Rightarrow> s \<noteq> [])"

text \<open>\<open>hay.indexOf(needle) !== -1\<close>.\<close>

fun contains :: "jsstring \<Rightarrow> jsstring \<Rightarrow> bool" where
  "contains [] needle = (needle = [])"
| "contains (h # hs) needle = (take (length needle) (h # hs) = needle \<or> contains hs needle)"

text \<open>
  The promises of a run. Every request has a continuation: what its promise is chained
  to. \<open>KController i\<close> is the request \<open>getControllerInfo\<close> makes for member \<open>i\<close>, and
  \<open>KDrive i k name\<close> the one \<open>getDriveInfo\<close> makes for drive \<open>k\<close> of that controller, whose
  name is \<open>name\<close>. \<open>controllers\<close> are the promises \<open>D.q.all\<close> waits for in
  \<open>getControllers\<close>, one per member; a controller that has its drives waits in turn
  for one promise per drive. A promise is fulfilled with a value or with \<open>undefined\<close>
  (\<open>None\<close>). \<open>settled\<close> says that the promise \<open>extractData\<close> is chained to has been
  settled. \<open>conts\<close> lists the continuations of the requests sent, \<open>resolved\<close> the requests
  whose promise \<open>d\<close> has been resolved.
\<close>

datatype cont = KLogin | KStorage | KController nat | KDrive nat nat jsstring

type_synonym drive_result = "(jsstring \<times> redfish) option"

datatype drive_promise = DPending | DFulfilled drive_result

datatype ctrl_promise = CPending | CDrives "drive_promise list" | CFulfilled "drive_result list option"

record dell = host +
  sessionToken :: "jsstring option"
  conts :: "cont list"
  resolved :: "nat list"
  controllers :: "ctrl_promise list option"
  settled :: bool

definition dell_init :: dell where
  "dell_init =
     \<lparr>trace = [], table = [], sessionToken = None, conts = [], resolved = [],
      controllers = None, settled = False\<rparr>"

text \<open>\<open>login\<close> and \<open>httpGet\<close> up to the call of the platform; \<open>httpGet\<close> reads
  \<open>sessionToken\<close> when it is called.\<close>

definition dell_login :: "jsstring \<times> jsstring \<Rightarrow> dell \<Rightarrow> dell" where
  "dell_login creds s =
     emit (HttpPost \<lparr>url = Some (asc ''/redfish/v1/SessionService/Sessions/''),
                     body = Some (Credentials (fst creds) (snd creds)), x_auth_token = None\<rparr>)
       (s\<lparr>conts := conts s @ [KLogin]\<rparr>)"

definition httpGet :: "jsstring option \<Rightarrow> cont \<Rightarrow> dell \<Rightarrow> dell" where
  "httpGet u k s =
     emit (HttpGet \<lparr>url = u, body = None, x_auth_token = sessionToken s\<rparr>)
       (s\<lparr>conts := conts s @ [k]\<rparr>)"

text \<open>
  \<open>processResponse(d)\<close>: the new state, and the value \<open>d\<close> is resolved with, if it is.
  No branch returns: after \<open>D.failure\<close> the function goes on. Reading \<open>headers\<close> of an
  undefined \<open>response\<close>, and \<open>JSON.parse\<close> of a body that is no JSON, throw out of the
  callback, and \<open>d\<close> stays pending.
\<close>

definition processResponse :: "json_body http_reply \<Rightarrow> dell \<Rightarrow> dell \<times> json_body option" where
  "processResponse r s =
     (let s1 = (case error r of
                  None \<Rightarrow> s
                | Some e \<Rightarrow> failure (Some GENERIC_ERROR) (console_error (Obj e) s))
      in case response r of
           None \<Rightarrow> (emit (Uncaught TypeError) s1, None)
         | Some resp \<Rightarrow>
             (let s2 =
                (if truthy (auth_token resp) then s1\<lparr>sessionToken := auth_token resp\<rparr>
                 else if truthy (command_status resp)
                         \<and> contains (str_of (command_status resp)) (asc ''Command failed'')
                 then failure (Some AUTHENTICATION_ERROR)
                        (console_error (Text (asc ''Session token not found in response headers'')) s1)
                 else if truthy (command_status resp)
                         \<and> contains (str_of (command_status resp)) (asc ''Invalid URL'')
                 then failure (Some RESOURCE_UNAVAILABLE) (console_error (Text (asc ''Invalid URL'')) s1)
                 else if statusCode resp \<noteq> 200 then failure (Some GENERIC_ERROR) s1
                 else s1)
              in case content r of
                   Unparsable \<Rightarrow> (emit (Uncaught SyntaxError) (emit JsonParse s2), None)
                 | v \<Rightarrow> (emit JsonParse s2, Some v)))"

text \<open>
  \<open>extractData\<close>. The second component is the exception that has ended it, if one has:
  reading a property of \<open>undefined\<close> throws a TypeError, and the calls made before it
  stay made. \<open>insert_drive\<close> is the body of the inner \<open>forEach\<close>, \<open>insert_drives\<close> that of the
  outer one.
\<close>

definition insert_drive :: "dell \<times> jsexn option \<Rightarrow> drive_result \<Rightarrow> dell \<times> jsexn option" where
  "insert_drive sx drives =
     (case sx of
        (s, Some e) \<Rightarrow> (s, Some e)
      | (s, None) \<Rightarrow>
          (case drives of
             None \<Rightarrow> (s, Some TypeError)
           | Some (controllerName, drive) \<Rightarrow>
               (let s1 = (if controllerName = []
                          then failure (Some GENERIC_ERROR)
                                 (console_error (Text (asc ''Controller name or drive not found'')) s)
                          else s)
                in case Placement drive of
                     None \<Rightarrow> (s1, Some TypeError)
                   | Some (rack, rackOffset) \<Rightarrow>
                       (case Status drive of
                          None \<Rightarrow> (s1, Some TypeError)
                        | Some (state, health) \<Rightarrow>
                            (insertRecord
                               (sanitize (controllerName @ asc '' '' @ str_of (Name drive)))
                               [SerialNumber drive, rack, rackOffset,
                                if state = Str (asc ''Enabled'') then health else Str (asc ''N/A'')]
                               s1,
                             None)))))"

definition insert_drives ::
  "dell \<times> jsexn option \<Rightarrow> drive_result list option \<Rightarrow> dell \<times> jsexn option" where
  "insert_drives sx driveData =
     (case sx of
        (s, Some e) \<Rightarrow> (s, Some e)
      | (s, None) \<Rightarrow>
          (case driveData of
             None \<Rightarrow> (s, Some TypeError)
           | Some ds \<Rightarrow> foldl insert_drive (s, None) ds))"

definition extractData :: "drive_result list option list option \<Rightarrow> dell \<Rightarrow> dell \<times> jsexn option" where
  "extractData data s =
     (case (case data of
              None \<Rightarrow> (s, Some TypeError)
            | Some d \<Rightarrow> foldl insert_drives (s, None) d) of
        (s1, None) \<Rightarrow> (success_table s1, None)
      | (s1, Some e) \<Rightarrow> (s1, Some e))"

text \<open>\<open>.then(extractData).catch(...)\<close> of \<open>get_status\<close>, run when the promise of
  \<open>getControllers\<close> is fulfilled with \<open>data\<close>; a promise is settled once.\<close>

definition report :: "drive_result list option list option \<Rightarrow> dell \<Rightarrow> dell" where
  "report data s =
     (if settled s then s
      else (case extractData data (s\<lparr>settled := True\<rparr>) of
              (s1, None) \<Rightarrow> s1
            | (s1, Some e) \<Rightarrow> failure (Some GENERIC_ERROR) (console_error (Thrown e) s1)))"

fun ctrl_result :: "ctrl_promise \<Rightarrow> drive_result list option option" where
  "ctrl_result (CFulfilled v) = Some v"
| "ctrl_result p = None"

fun drive_result :: "drive_promise \<Rightarrow> drive_result option" where
  "drive_result (DFulfilled v) = Some v"
| "drive_result p = None"

text \<open>\<open>D.q.all\<close> over the controllers: fulfilled, with the results in the order of the
  members, when every controller is.\<close>

definition all_done :: "dell \<Rightarrow> dell" where
  "all_done s =
     (case controllers s of
        None \<Rightarrow> s
      | Some cs \<Rightarrow>
          if list_all (\<lambda>c. ctrl_result c \<noteq> None) cs
          then report (Some (map (\<lambda>c. the (ctrl_result c)) cs)) s
          else s)"

text \<open>\<open>D.q.all\<close> over the drives of controller \<open>i\<close>.\<close>

definition drives_done :: "nat \<Rightarrow> dell \<Rightarrow> dell" where
  "drives_done i s =
     (case controllers s of
        None \<Rightarrow> s
      | Some cs \<Rightarrow>
          (case at_index cs i of
             Some (CDrives ps) \<Rightarrow>
               if list_all (\<lambda>p. drive_result p \<noteq> None) ps
               then all_done
                      (s\<lparr>controllers :=
                           Some (cs[i := CFulfilled (Some (map (\<lambda>p. the (drive_result p)) ps))])\<rparr>)
               else s
           | _ \<Rightarrow> s))"

text \<open>The function chained to \<open>httpGet("/redfish/v1/Storage")\<close> in \<open>getControllers\<close>.
  Without \<open>Members\<close> it returns \<open>undefined\<close>, with which \<open>extractData\<close> is then called.\<close>

definition on_storage :: "json_body \<Rightarrow> dell \<Rightarrow> dell" where
  "on_storage v s =
     (case v of
        Object j \<Rightarrow>
          (case Members j of
             Some ms \<Rightarrow>
               all_done
                 ((foldl (\<lambda>s (i, m). httpGet m (KController i) s) s (zip [0 ..< length ms] ms))
                    \<lparr>controllers := Some (replicate (length ms) CPending)\<rparr>)
           | None \<Rightarrow> report None s)
      | _ \<Rightarrow> report None s)"

text \<open>The function chained to \<open>httpGet(controllerUrl)\<close> in \<open>getControllerInfo\<close>.\<close>

definition set_controller :: "nat \<Rightarrow> ctrl_promise \<Rightarrow> dell \<Rightarrow> dell" where
  "set_controller i p s =
     (case controllers s of
        None \<Rightarrow> s
      | Some cs \<Rightarrow> s\<lparr>controllers := Some (cs[i := p])\<rparr>)"

definition on_controller :: "nat \<Rightarrow> json_body \<Rightarrow> dell \<Rightarrow> dell" where
  "on_controller i v s =
     (case (case v of
              Object j \<Rightarrow> if truthy (Name j) then map_option (Pair (str_of (Name j))) (Drives j)
                          else None
            | _ \<Rightarrow> None) of
        Some (name, ds) \<Rightarrow>
          drives_done i
            (set_controller i (CDrives (replicate (length ds) DPending))
               (foldl (\<lambda>s (k, d). httpGet d (KDrive i k name) s) s (zip [0 ..< length ds] ds)))
      | None \<Rightarrow>
          all_done
            (set_controller i (CFulfilled None)
               (console_error (Text (asc ''Controller name or drives not found'')) s)))"

text \<open>The function chained to \<open>httpGet(driveUrl)\<close> in \<open>getDriveInfo\<close>.\<close>

definition set_drive :: "nat \<Rightarrow> nat \<Rightarrow> drive_promise \<Rightarrow> dell \<Rightarrow> dell" where
  "set_drive i k p s =
     (case controllers s of
        None \<Rightarrow> s
      | Some cs \<Rightarrow>
          (case at_index cs i of
             Some (CDrives ps) \<Rightarrow> s\<lparr>controllers := Some (cs[i := CDrives (ps[k := p])])\<rparr>
           | _ \<Rightarrow> s))"

definition on_drive :: "nat \<Rightarrow> nat \<Rightarrow> jsstring \<Rightarrow> json_body \<Rightarrow> dell \<Rightarrow> dell" where
  "on_drive i k controllerName v s =
     (case (case v of Object j \<Rightarrow> if truthy (Name j) then Some j else None | _ \<Rightarrow> None) of
        Some drive \<Rightarrow> drives_done i (set_drive i k (DFulfilled (Some (controllerName, drive))) s)
      | None \<Rightarrow>
          drives_done i
            (set_drive i k (DFulfilled None)
               (console_error (Text (asc ''Drive name not found'')) s)))"

text \<open>
  \<open>get_status\<close>: \<open>login\<close> is sent at once. A reply invokes the callback of a request
  that has been sent: it runs \<open>processResponse\<close>, and when that resolves the promise
  \<open>d\<close> of the request, the function chained to it. \<open>d.resolve\<close> on a promise that is
  resolved already does nothing, so that the chained function runs once at most.
\<close>

definition dell_get_status_start :: "jsstring \<times> jsstring \<Rightarrow> dell" where
  "dell_get_status_start creds = dell_login creds dell_init"

definition dell_on_reply :: "dell \<Rightarrow> json_body http_reply \<Rightarrow> dell" where
  "dell_on_reply s r =
     (if req r < length (conts s) then
        (case processResponse r (emit (Callback (req r)) s) of
           (s1, None) \<Rightarrow> s1
         | (s1, Some v) \<Rightarrow>
             if req r \<in> set (resolved s1) then s1
             else
               (let s2 = s1\<lparr>resolved := resolved s1 @ [req r]\<rparr>
                in case conts s ! req r of
                     KLogin \<Rightarrow> httpGet (Some (asc ''/redfish/v1/Storage'')) KStorage s2
                   | KStorage \<Rightarrow> on_storage v s2
                   | KController i \<Rightarrow> on_controller i v s2
                   | KDrive i k name \<Rightarrow> on_drive i k name v s2))
      else s)"

definition dell_get_status :: "jsstring \<times> jsstring \<Rightarrow> json_body http_reply list \<Rightarrow> dell" where
  "dell_get_status creds replies = foldl dell_on_reply (dell_get_status_start creds) replies"

section \<open>Reactions to an error\<close>

text \<open>
  \<open>added s s'\<close> are the events by which the trace has grown from \<open>s\<close> to \<open>s'\<close>: what a
  callback did that was entered in \<open>s\<close> and left \<open>s'\<close>. \<open>log_and_fail\<close> is the reaction
  the specification describes for an error: the driver logs to the console, calls
  \<open>D.failure\<close>, and does nothing else.
\<close>

definition added :: "('a host_scheme) \<Rightarrow> ('a host_scheme) \<Rightarrow> event list" where
  "added s s' = drop (length (trace s)) (trace s')"

definition is_log :: "event \<Rightarrow> bool" where
  "is_log e \<longleftrightarrow> (case e of ConsoleError x \<Rightarrow> True | _ \<Rightarrow> False)"

definition log_and_fail :: "event list \<Rightarrow> bool" where
  "log_and_fail es \<longleftrightarrow>
     (case rev es of
        Failure t # logs \<Rightarrow> logs \<noteq> [] \<and> list_all is_log logs
      | _ \<Rightarrow> False)"

text \<open>What \<open>checkSshError\<close> logs before its first call of \<open>D.failure\<close>, and that call.\<close>

definition ssh_error_head :: "jserr \<Rightarrow> event list" where
  "ssh_error_head e =
     (case message e of None \<Rightarrow> [] | Some m \<Rightarrow> if m = [] then [] else [ConsoleError (Text m)])
     @ (if code e = Some 5 then [Failure (Some AUTHENTICATION_ERROR)]
        else [ConsoleError (Obj e), Failure (Some GENERIC_ERROR)])"

section \<open>The order of a run\<close>

text \<open>
  The order the specification gives a run (authenticate, fetch, parse, report), read
  on its trace. The check goes through the trace with a state: the number of requests
  sent (\<open>requested\<close>), whether the first of them was an HTTP request, which then is the
  login (\<open>login\<close>), the requests whose callback has been invoked (\<open>heard\<close>), the requests
  whose response has been parsed (\<open>parsed\<close>), the request whose callback is running
  (\<open>current\<close>), and whether \<open>D.success\<close> has been called (\<open>reported\<close>). \<open>order_step\<close> is
  \<open>None\<close> for an event that breaks the order:
  \<^item> a request after the report, and an HTTP request other than the first before the
    response to the login has been received and parsed;
  \<^item> a callback for a request that has not been sent;
  \<^item> \<open>JSON.parse\<close> or \<open>D.htmlParse\<close> outside the callback of a response, or after the
    report;
  \<^item> a row inserted outside the callback of a response or after the report, and in a
    driver that logs in, a row inserted in the callback of the login or of a response
    that has not been parsed;
  \<^item> \<open>D.success\<close> called a second time, or outside a callback, or while a request
    that has been sent has no response yet or, in a driver that logs in, a response
    has not been parsed.

  The SSH drivers have no login request and call no parser: they parse the output of
  a command as they insert its rows. \<open>order_scan h\<close> runs the check along a trace;
  where \<open>D.failure\<close> ends the script (\<open>h\<close>), it also refuses every event that follows a
  call of \<open>D.failure\<close>.
\<close>

record order =
  requested :: nat
  login :: bool
  heard :: "nat list"
  parsed :: "nat list"
  current :: "nat option"
  reported :: bool

definition order_init :: order where
  "order_init =
     \<lparr>requested = 0, login = False, heard = [], parsed = [], current = None, reported = False\<rparr>"

definition http_request :: "order \<Rightarrow> order option" where
  "http_request st =
     (if reported st then None
      else if requested st = 0 then Some (st\<lparr>requested := 1, login := True\<rparr>)
      else if login st \<and> 0 \<in> set (parsed st) then Some (st\<lparr>requested := requested st + 1\<rparr>)
      else None)"

definition parse_response :: "order \<Rightarrow> order option" where
  "parse_response st =
     (case current st of
        None \<Rightarrow> None
      | Some k \<Rightarrow> if reported st then None else Some (st\<lparr>parsed := k # parsed st\<rparr>))"

definition order_step :: "order \<Rightarrow> event \<Rightarrow> order option" where
  "order_step st e =
     (case e of
        HttpPost cfg \<Rightarrow> http_request st
      | HttpGet cfg \<Rightarrow> http_request st
      | SendSSHCommand cfg \<Rightarrow>
          if reported st then None else Some (st\<lparr>requested := requested st + 1\<rparr>)
      | Callback k \<Rightarrow>
          if k < requested st then Some (st\<lparr>heard := k # heard st, current := Some k\<rparr>)
          else None
      | HtmlParse \<Rightarrow> parse_response st
      | JsonParse \<Rightarrow> parse_response st
      | InsertRecord i cols \<Rightarrow>
          (case current st of
             None \<Rightarrow> None
           | Some k \<Rightarrow>
               if \<not> reported st \<and> (login st \<longrightarrow> k \<noteq> 0 \<and> k \<in> set (parsed st))
               then Some st else None)
      | Success x \<Rightarrow>
          if \<not> reported st \<and> current st \<noteq> None \<and> 0 < requested st
             \<and> list_all (\<lambda>k. k \<in> set (heard st) \<and> (login st \<longrightarrow> k \<in> set (parsed st)))
                  [0 ..< requested st]
          then Some (st\<lparr>reported := True\<rparr>) else None
      | _ \<Rightarrow> Some st)"

definition is_failure :: "event \<Rightarrow> bool" where
  "is_failure e \<longleftrightarrow> (case e of Failure t \<Rightarrow> True | _ \<Rightarrow> False)"

fun order_scan :: "bool \<Rightarrow> order \<Rightarrow> event list \<Rightarrow> order option" where
  "order_scan h st [] = Some st"
| "order_scan h st (e # es) =
     (case order_step st e of
        None \<Rightarrow> None
      | Some st' \<Rightarrow> if h \<and> is_failure e \<and> es \<noteq> [] then None else order_scan h st' es)"

definition in_order :: "bool \<Rightarrow> event list \<Rightarrow> bool" where
  "in_order h t \<longleftrightarrow> order_scan h order_init t \<noteq> None"










text \<open>
  The check and the Dell driver. \<open>dell_mid X k s\<close> holds while the callback of request
  \<open>k\<close> runs, after \<open>JSON.parse\<close>: the check has come through the trace with the
  callbacks \<open>X\<close> heard, the response of \<open>k\<close> and that of the login parsed, and no
  report made. \<open>dell_kept X s\<close> is what is left of it between callbacks, and \<open>dell_inv\<close>
  the invariant of a run after the replies \<open>rs\<close>.
\<close>

definition dell_mid :: "nat set \<Rightarrow> nat \<Rightarrow> dell \<Rightarrow> bool" where
  "dell_mid X k s \<longleftrightarrow>
     (\<exists>st. order_scan False order_init (trace s) = Some st
        \<and> requested st = length (conts s) \<and> 0 < requested st \<and> login st
        \<and> current st = Some k \<and> k \<in> set (parsed st) \<and> 0 \<in> set (parsed st)
        \<and> \<not> reported st \<and> set (heard st) = X
        \<and> set (resolved s) \<subseteq> set (parsed st) \<inter> X)"







section \<open>Properties of the join\<close>

lemma finished_invoke_all: "finished (invoke_all n evs) = length evs"
  by (induction evs rule: rev_induct)
     (simp_all add: invoke_all_def done_cb_def execute_all_start_def Let_def)

lemma invoke_all_snoc: "invoke_all n (evs @ [e]) = done_cb n (invoke_all n evs) e"
  by (simp add: invoke_all_def)

lemma length_results:
  "\<forall>e\<in>set evs. fst e < n \<Longrightarrow> length (results (invoke_all n evs)) = n"
  by (induction evs rule: rev_induct)
     (simp_all add: invoke_all_def done_cb_def execute_all_start_def Let_def js_set_def)

text \<open>Before the \<open>n\<close>-th invocation the final callback has not been called.\<close>

lemma calls_early: "length evs < n \<Longrightarrow> calls (invoke_all n evs) = []"
proof (induction evs rule: rev_induct)
  case Nil
  then show ?case by (simp add: invoke_all_def execute_all_start_def)
next
  case (snoc e evs)
  then show ?case by (simp add: invoke_all_snoc finished_invoke_all done_cb_def Let_def)
qed

text \<open>The \<open>n\<close>-th invocation calls it, with the array as it is then.\<close>

lemma calls_at:
  assumes "length evs = n"
  shows "calls (invoke_all n evs) = [results (invoke_all n evs)]"
proof (cases evs rule: rev_cases)
  case Nil
  with assms show ?thesis by (simp add: invoke_all_def execute_all_start_def)
next
  case (snoc ys y)
  with assms have "length ys < n" by auto
  then have "calls (invoke_all n ys) = []" by (rule calls_early)
  with snoc assms show ?thesis
    by (simp add: invoke_all_snoc finished_invoke_all done_cb_def Let_def)
qed

lemma results_at:
  "\<forall>e\<in>set evs. fst e < n \<Longrightarrow> distinct (map fst evs) \<Longrightarrow> (i, r) \<in> set evs
   \<Longrightarrow> results (invoke_all n evs) ! i = r"
proof (induction evs rule: rev_induct)
  case Nil
  then show ?case by simp
next
  case (snoc e evs)
  have len: "length (results (invoke_all n evs)) = n"
    using snoc.prems(1) by (intro length_results) simp
  show ?case
  proof (cases "e = (i, r)")
    case True
    with snoc.prems(1) len show ?thesis
      by (simp add: invoke_all_snoc done_cb_def Let_def js_set_def)
  next
    case False
    with snoc.prems have in_evs: "(i, r) \<in> set evs" by simp
    then have "i \<in> set (map fst evs)" by force
    with snoc.prems(2) have "fst e \<noteq> i" by auto
    moreover have "results (invoke_all n evs) ! i = r"
      using snoc.IH snoc.prems in_evs by simp
    ultimately show ?thesis using snoc.prems(1) len
      by (simp add: invoke_all_snoc done_cb_def Let_def js_set_def)
  qed
qed

lemma distinct_count_le_1: "\<forall>x. count_list xs x \<le> 1 \<Longrightarrow> distinct xs"
proof (induction xs)
  case Nil
  then show ?case by simp
next
  case (Cons a xs)
  have "count_list xs x \<le> 1" for x
    using Cons.prems by (metis count_list.simps(2) le_add1 le_trans add_leD1)
  moreover have "a \<notin> set xs"
  proof
    assume "a \<in> set xs"
    then have "count_list xs a \<noteq> 0" by (simp add: count_list_0_iff)
    moreover have "count_list (a # xs) a \<le> 1" using Cons.prems by blast
    ultimately show False by simp
  qed
  ultimately show ?case using Cons.IH by simp
qed

lemma count_passed: "count_list (map fst evs) i = length (passed evs i)"
  by (induction evs) (simp_all add: passed_def)

text \<open>When every function calls back exactly once, the invocations are a permutation
  of the indices.\<close>

lemma once_each:
  assumes "\<forall>e\<in>set evs. fst e < n" and "\<forall>i<n. length (passed evs i) = 1"
  shows "distinct (map fst evs) \<and> length evs = n"
proof -
  have sub: "set (map fst evs) \<subseteq> {..<n}" using assms(1) by auto
  have "count_list (map fst evs) i \<le> 1" for i
  proof (cases "i < n")
    case True
    with assms(2) show ?thesis by (simp add: count_passed)
  next
    case False
    with sub have "i \<notin> set (map fst evs)" by auto
    then show ?thesis by simp
  qed
  then have d: "distinct (map fst evs)" by (simp add: distinct_count_le_1)
  have "sum (count_list (map fst evs)) {..<n} = length (map fst evs)"
    using sub by (rule sum_count_set) simp
  moreover have "sum (count_list (map fst evs)) {..<n} = sum (\<lambda>_. 1) {..<n}"
    using assms(2) by (intro sum.cong) (simp_all add: count_passed)
  ultimately have "length evs = n" by simp
  with d show ?thesis by simp
qed

lemma valid_invocations: "\<forall>e\<in>set (invocations arrayFn later). fst e < length arrayFn"
  by (auto simp: invocations_def in_set_zip)

text \<open>
  Claim C1. Let every function of \<open>arrayFn\<close> invoke the function it is handed exactly
  once, during \<open>forEach\<close> or later, in any order. Then there are exactly as many
  invocations as functions; after \<open>k\<close> of them the counter is \<open>k\<close> and the final callback
  has been called once if \<open>k\<close> is the length of \<open>arrayFn\<close> and not at all before; and
  the one array it is called with has the length of \<open>arrayFn\<close> and holds at every index
  \<open>i\<close> the result \<open>arrayFn[i]\<close> passed. (The claim asks for a non-empty \<open>arrayFn\<close>; the
  statement holds for the empty one too.)
\<close>

theorem execute_all_joins:
  assumes once: "\<forall>i < length arrayFn. length (passed (invocations arrayFn later) i) = 1"
  shows "length (invocations arrayFn later) = length arrayFn
       \<and> (\<forall>k \<le> length arrayFn.
            finished (invoke_all (length arrayFn) (take k (invocations arrayFn later))) = k
          \<and> length (calls (invoke_all (length arrayFn) (take k (invocations arrayFn later))))
              = (if k = length arrayFn then 1 else 0))
       \<and> (\<exists>rs. calls (execute_all arrayFn later) = [rs] \<and> length rs = length arrayFn
              \<and> (\<forall>i < length arrayFn. passed (invocations arrayFn later) i = [rs ! i]))"
proof -
  define n where "n = length arrayFn"
  define evs where "evs = invocations arrayFn later"
  have valid: "\<forall>e\<in>set evs. fst e < n"
    unfolding evs_def n_def by (rule valid_invocations)
  from once have perm: "distinct (map fst evs)" and len: "length evs = n"
    using once_each [OF valid] unfolding evs_def n_def by simp_all
  have steps: "finished (invoke_all n (take k evs)) = k
      \<and> length (calls (invoke_all n (take k evs))) = (if k = n then 1 else 0)" if "k \<le> n" for k
  proof (cases "k = n")
    case True
    with len show ?thesis by (simp add: finished_invoke_all calls_at)
  next
    case False
    with that len have "length (take k evs) < n" by simp
    then have "calls (invoke_all n (take k evs)) = []" by (rule calls_early)
    with False that len show ?thesis by (simp add: finished_invoke_all)
  qed
  define rs where "rs = results (invoke_all n evs)"
  have c: "calls (invoke_all n evs) = [rs]"
    unfolding rs_def using len by (rule calls_at)
  have l: "length rs = n"
    unfolding rs_def using valid by (rule length_results)
  have at: "passed evs i = [rs ! i]" if "i < n" for i
  proof -
    from that once have "length (passed evs i) = 1" by (simp add: evs_def n_def)
    then obtain r where r: "passed evs i = [r]"
      by (cases "passed evs i") simp_all
    then have "r \<in> set (map snd (filter (\<lambda>e. fst e = i) evs))" by (simp add: passed_def)
    then have "(i, r) \<in> set evs" by auto
    with valid perm have "rs ! i = r" unfolding rs_def by (rule results_at)
    with r show ?thesis by simp
  qed
  from len steps c l at show ?thesis
    unfolding n_def evs_def execute_all_def by blast
qed

text \<open>Three functions: the second calls back at once with 7, the third later with no
  result, the first last with 5.\<close>

theorem execute_all_joins_witness:
  "length (passed (invocations [Fn [], Fn [Some (7::nat)], Fn []] [(2, None), (0, Some 5)]) 0) = 1
 \<and> length (passed (invocations [Fn [], Fn [Some (7::nat)], Fn []] [(2, None), (0, Some 5)]) 1) = 1
 \<and> length (passed (invocations [Fn [], Fn [Some (7::nat)], Fn []] [(2, None), (0, Some 5)]) 2) = 1
 \<and> length (invocations [Fn [], Fn [Some (7::nat)], Fn []] [(2, None), (0, Some 5)]) = 3
 \<and> calls (execute_all [Fn [], Fn [Some (7::nat)], Fn []] [(2, None), (0, Some 5)])
     = [[Some 5, Some 7, None]]"
proof -
  let ?fs = "[Fn [], Fn [Some (7::nat)], Fn []]"
  let ?later = "[(2, None), (0, Some (5::nat))]"
  have inv: "invocations ?fs ?later = [(1, Some 7), (2, None), (0, Some 5)]"
    by (simp add: invocations_def upt_rec)
  have h: "\<forall>i < length ?fs. length (passed (invocations ?fs ?later) i) = 1"
    unfolding inv by (auto simp: passed_def less_Suc_eq)
  from execute_all_joins [OF h]
  have n: "length (invocations ?fs ?later) = 3" by simp
  have c: "calls (execute_all ?fs ?later) = [[Some 5, Some 7, None]]"
    unfolding execute_all_def inv
    by (simp add: invoke_all_def done_cb_def execute_all_start_def js_set_def Let_def)
  have p: "length (passed (invocations ?fs ?later) 0) = 1"
    "length (passed (invocations ?fs ?later) 1) = 1"
    "length (passed (invocations ?fs ?later) 2) = 1"
    unfolding inv by (simp_all add: passed_def)
  from p n c show ?thesis by simp
qed

text \<open>
  Claim C8. For the empty array no function is made, so nothing can be invoked later;
  the final callback is called once, by the test at the head of \<open>execute_all\<close>, with
  the empty array, and whatever happens afterwards it is not called again.
\<close>

theorem execute_all_empty:
  "invocations ([] :: 'a fn list) later = []
 \<and> calls (execute_all ([] :: 'a fn list) later) = [[]]"
  by (simp add: invocations_def execute_all_def invoke_all_def execute_all_start_def)

section \<open>Properties of the regular expressions\<close>

lemma first_some_None: "first_some f xs = None \<longleftrightarrow> (\<forall>x\<in>set xs. f x = None)"
  by (induction xs) (auto split: option.splits)

lemma first_some_Some: "first_some f xs = Some y \<Longrightarrow> \<exists>x\<in>set xs. f x = Some y"
  by (induction xs) (auto split: option.splits)

lemma first_longest: "0 < n \<Longrightarrow> f n = Some y \<Longrightarrow> first_some f (rev [1 ..< Suc n]) = Some y"
  by simp

lemma takeWhile_digits: "list_all is_digit d \<Longrightarrow> ends_digits s \<Longrightarrow> takeWhile is_digit (d @ s) = d"
  by (induction d) (auto simp: ends_digits_def split: list.splits)

lemma match_lit:
  "match_here (Lit l # rs) (l @ s) = map_option (\<lambda>(n, g). (length l + n, g)) (match_here rs s)"
  by simp

lemma match_digits:
  assumes "digits d" "ends_digits s" "match_here rs s = Some (n, g)"
  shows "match_here (Digits # rs) (d @ s) = Some (length d + n, g)"
    and "match_here (DigitsGroup # rs) (d @ s) = Some (length d + n, d # g)"
proof -
  from assms have t: "takeWhile is_digit (d @ s) = d" and pos: "0 < length d"
    by (simp_all add: digits_def takeWhile_digits)
  show "match_here (Digits # rs) (d @ s) = Some (length d + n, g)"
    unfolding match_here.simps re.case t using pos assms(3) by (intro first_longest) simp_all
  show "match_here (DigitsGroup # rs) (d @ s) = Some (length d + n, d # g)"
    unfolding match_here.simps re.case t using pos assms(3) by (intro first_longest) simp_all
qed

lemma take_digits: "k \<le> length (takeWhile is_digit t) \<Longrightarrow> list_all is_digit (take k t)"
proof -
  assume k: "k \<le> length (takeWhile is_digit t)"
  have "take k t = take k (takeWhile is_digit t @ dropWhile is_digit t)" by simp
  also have "\<dots> = take k (takeWhile is_digit t)" using k by (simp del: takeWhile_dropWhile_id)
  finally have "set (take k t) \<subseteq> set (takeWhile is_digit t)" by (metis set_take_subset)
  then show ?thesis by (auto simp: list_all_iff dest: set_takeWhileD)
qed

lemma match_lit_D:
  assumes "match_here (Lit l # rs) t = Some (n, g)"
  shows "\<exists>n'. take (length l) t = l \<and> match_here rs (drop (length l) t) = Some (n', g) \<and> n = length l + n'"
  using assms by (auto split: if_splits)

lemma match_digits_D:
  assumes "match_here (Digits # rs) t = Some (n, g)"
  shows "\<exists>k n'. digits (take k t) \<and> k \<le> length t \<and> match_here rs (drop k t) = Some (n', g) \<and> n = k + n'"
proof -
  from assms obtain k where k: "k \<in> set (rev [1 ..< Suc (length (takeWhile is_digit t))])"
    and m: "map_option (\<lambda>(n, groups). (k + n, groups)) (match_here rs (drop k t)) = Some (n, g)"
    by (auto dest!: first_some_Some simp del: upt_Suc)
  from k have k1: "1 \<le> k" and k2: "k \<le> length (takeWhile is_digit t)" by auto
  from k2 have "k \<le> length t" using length_takeWhile_le [of is_digit t] by linarith
  moreover from k1 this k2 have "digits (take k t)" by (auto simp: digits_def take_digits)
  ultimately show ?thesis using m by auto
qed

lemma match_group_D:
  assumes "match_here (DigitsGroup # rs) t = Some (n, g)"
  shows "\<exists>k n' g'. digits (take k t) \<and> k \<le> length t \<and> match_here rs (drop k t) = Some (n', g')
            \<and> n = k + n' \<and> g = take k t # g'"
proof -
  from assms obtain k where k: "k \<in> set (rev [1 ..< Suc (length (takeWhile is_digit t))])"
    and m: "map_option (\<lambda>(n, groups). (k + n, take k t # groups)) (match_here rs (drop k t)) = Some (n, g)"
    by (auto dest!: first_some_Some simp del: upt_Suc)
  from k have k1: "1 \<le> k" and k2: "k \<le> length (takeWhile is_digit t)" by auto
  from k2 have "k \<le> length t" using length_takeWhile_le [of is_digit t] by linarith
  moreover from k1 this k2 have "digits (take k t)" by (auto simp: digits_def take_digits)
  ultimately show ?thesis using m by auto
qed

lemma exec_None: "exec p s = None \<longleftrightarrow> (\<forall>k \<le> length s. match_here p (drop k s) = None)"
  by (auto simp: exec_def first_some_None less_Suc_eq_le simp del: upt_Suc)

lemma exec_NoneD: "exec p s = None \<Longrightarrow> k \<le> length s \<Longrightarrow> match_here p (drop k s) = None"
  by (simp add: exec_None)

lemma exec_Some:
  "exec p s = Some m \<Longrightarrow>
   \<exists>k n g. k \<le> length s \<and> match_here p (drop k s) = Some (n, g) \<and> m = take n (drop k s) # g"
  by (auto simp: exec_def less_Suc_eq_le simp del: upt_Suc dest!: first_some_Some)

lemma ends_digits_lits [simp]:
  "ends_digits (asc ''ms'' @ s)" "ends_digits (asc '', Received = '' @ s)"
  "ends_digits (asc '', Lost = '' @ s)"
  by (simp_all add: ends_digits_def asc_def is_digit_def)

lemma ends_digits_dropWhile [simp]: "ends_digits (dropWhile is_digit s)"
  by (induction s) (simp_all add: ends_digits_def)

lemma split3: "s = take k s @ take n (drop k s) @ drop n (drop k s)"
  by (simp only: append_take_drop_id)

lemma latency_match:
  assumes "digits d"
  shows "match_here latency_re (latency_text d @ post) = Some (length (latency_text d), [d])"
proof -
  have 1: "match_here [Lit (asc ''ms'')] (asc ''ms'' @ post) = Some (2, [])"
    by (simp add: asc_def)
  have 2: "match_here [DigitsGroup, Lit (asc ''ms'')] (d @ asc ''ms'' @ post) = Some (length d + 2, [d])"
    using assms 1 by (intro match_digits) simp_all
  show ?thesis
    unfolding latency_re_def latency_text_def append_assoc match_lit 2
    by (simp add: asc_def)
qed

lemma take_lit: "take (length l) t = l \<Longrightarrow> take (length l + m) t = l @ take m (drop (length l) t)"
  by (simp add: take_add)

lemma latency_match_D:
  assumes "match_here latency_re t = Some (n, g)"
  shows "\<exists>d. digits d \<and> g = [d] \<and> take n t = latency_text d"
proof -
  let ?A = "asc ''Average = ''"
  from assms obtain n1 where A: "take (length ?A) t = ?A"
    and m1: "match_here [DigitsGroup, Lit (asc ''ms'')] (drop (length ?A) t) = Some (n1, g)"
    and n: "n = length ?A + n1"
    unfolding latency_re_def by (blast dest: match_lit_D)
  let ?t1 = "drop (length ?A) t"
  from match_group_D [OF m1] obtain k n2 g2 where d: "digits (take k ?t1)"
    and m2: "match_here [Lit (asc ''ms'')] (drop k ?t1) = Some (n2, g2)"
    and n1: "n1 = k + n2" and g: "g = take k ?t1 # g2" and k: "k \<le> length ?t1"
    by blast
  from match_lit_D [OF m2] obtain n3 where ms: "take (length (asc ''ms'')) (drop k ?t1) = asc ''ms''"
    and m3: "match_here [] (drop (length (asc ''ms'')) (drop k ?t1)) = Some (n3, g2)"
    and n2: "n2 = length (asc ''ms'') + n3"
    by blast
  from m3 have "n3 = 0" "g2 = []" by simp_all
  with n n1 n2 have n': "n = length ?A + (k + length (asc ''ms''))" by simp
  have "take n t = ?A @ take (k + length (asc ''ms'')) ?t1"
    unfolding n' using A by (rule take_lit)
  also have "take (k + length (asc ''ms'')) ?t1 = take k ?t1 @ asc ''ms''"
    using ms by (simp add: take_add)
  finally have "take n t = latency_text (take k ?t1)" by (simp add: latency_text_def)
  with d g \<open>g2 = []\<close> show ?thesis by blast
qed

lemma exec_latency_iff: "exec latency_re s \<noteq> None \<longleftrightarrow> has_latency s"
proof
  assume "exec latency_re s \<noteq> None"
  then obtain m where "exec latency_re s = Some m" by blast
  from exec_Some [OF this] obtain k n g where k: "k \<le> length s"
    and m: "match_here latency_re (drop k s) = Some (n, g)" by blast
  from latency_match_D [OF m] obtain d where d: "digits d" "take n (drop k s) = latency_text d"
    by blast
  have "s = take k s @ latency_text d @ drop n (drop k s)"
    using split3 [of s k n] unfolding d(2) .
  with d(1) have "digits d \<and> s = take k s @ latency_text d @ drop n (drop k s)"
    by (rule conjI)
  then show "has_latency s" unfolding has_latency_def by (intro exI)
next
  assume "has_latency s"
  then obtain pre d post where d: "digits d" and s: "s = pre @ latency_text d @ post"
    unfolding has_latency_def by blast
  have "drop (length pre) s = latency_text d @ post" unfolding s by simp
  then have found: "match_here latency_re (drop (length pre) s) \<noteq> None"
    by (simp only: latency_match [OF d]) simp
  have len: "length pre \<le> length s" unfolding s by simp
  show "exec latency_re s \<noteq> None"
  proof
    assume "exec latency_re s = None"
    from exec_NoneD [OF this len] found show False by simp
  qed
qed

lemma exec_latency_Some:
  assumes "exec latency_re s = Some m"
  shows "\<exists>l. digits l \<and> m = [latency_text l, l]"
proof -
  from exec_Some [OF assms] obtain k n g where
    m: "match_here latency_re (drop k s) = Some (n, g)" and r: "m = take n (drop k s) # g" by blast
  from latency_match_D [OF m] r show ?thesis by auto
qed

lemma digits_append: "digits c \<Longrightarrow> list_all is_digit r \<Longrightarrow> digits (c @ r)"
  by (simp add: digits_def)

lemma list_all_takeWhile [simp]: "list_all P (takeWhile P xs)"
  by (induction xs) simp_all

lemma loss_match:
  assumes "digits a" "digits b" "digits c"
  shows "\<exists>n p. digits p \<and> match_here packet_loss_re (packet_loss_text a b c @ post) = Some (n, [p])"
proof -
  let ?p = "c @ takeWhile is_digit post"
  let ?post = "dropWhile is_digit post"
  have p: "digits ?p" using assms(3) by (simp add: digits_append)
  have 0: "match_here [] ?post = Some (0, [])" by simp
  have 1: "match_here [DigitsGroup] (?p @ ?post) = Some (length ?p + 0, [?p])"
    using p _ 0 by (rule match_digits) simp
  have 2: "match_here [Lit (asc '', Lost = ''), DigitsGroup] (asc '', Lost = '' @ ?p @ ?post)
     = Some (length (asc '', Lost = '') + length ?p, [?p])"
    unfolding match_lit 1 by simp
  have 3: "match_here [Digits, Lit (asc '', Lost = ''), DigitsGroup] (b @ asc '', Lost = '' @ ?p @ ?post)
     = Some (length b + (length (asc '', Lost = '') + length ?p), [?p])"
    using assms(2) _ 2 by (rule match_digits) simp
  have 4: "match_here [Lit (asc '', Received = ''), Digits, Lit (asc '', Lost = ''), DigitsGroup]
       (asc '', Received = '' @ b @ asc '', Lost = '' @ ?p @ ?post)
     = Some (length (asc '', Received = '') + (length b + (length (asc '', Lost = '') + length ?p)), [?p])"
    unfolding match_lit 3 by simp
  have 5: "match_here [Digits, Lit (asc '', Received = ''), Digits, Lit (asc '', Lost = ''), DigitsGroup]
       (a @ asc '', Received = '' @ b @ asc '', Lost = '' @ ?p @ ?post)
     = Some (length a + (length (asc '', Received = '') + (length b + (length (asc '', Lost = '') + length ?p))), [?p])"
    using assms(1) _ 4 by (rule match_digits) simp
  have 6: "match_here packet_loss_re
       (asc ''Packets: Sent = '' @ a @ asc '', Received = '' @ b @ asc '', Lost = '' @ ?p @ ?post)
     = Some (length (asc ''Packets: Sent = '') + (length a + (length (asc '', Received = '')
         + (length b + (length (asc '', Lost = '') + length ?p)))), [?p])"
    unfolding packet_loss_re_def match_lit 5 by simp
  have eq: "packet_loss_text a b c @ post
     = asc ''Packets: Sent = '' @ a @ asc '', Received = '' @ b @ asc '', Lost = '' @ ?p @ ?post"
    by (simp add: packet_loss_text_def)
  show ?thesis unfolding eq by (rule exI, rule exI [of _ ?p], rule conjI [OF p 6])
qed

lemma loss_match_D:
  assumes "match_here packet_loss_re t = Some (n, g)"
  shows "\<exists>a b c. digits a \<and> digits b \<and> digits c \<and> g = [c] \<and> take n t = packet_loss_text a b c"
proof -
  let ?A = "asc ''Packets: Sent = ''" and ?B = "asc '', Received = ''" and ?C = "asc '', Lost = ''"
  from assms obtain n1 where A: "take (length ?A) t = ?A"
    and m1: "match_here [Digits, Lit ?B, Digits, Lit ?C, DigitsGroup] (drop (length ?A) t) = Some (n1, g)"
    and n: "n = length ?A + n1"
    unfolding packet_loss_re_def by (blast dest: match_lit_D)
  let ?t1 = "drop (length ?A) t"
  from match_digits_D [OF m1] obtain ka n2 where a: "digits (take ka ?t1)"
    and m2: "match_here [Lit ?B, Digits, Lit ?C, DigitsGroup] (drop ka ?t1) = Some (n2, g)"
    and n1: "n1 = ka + n2"
    by blast
  let ?t2 = "drop ka ?t1"
  from match_lit_D [OF m2] obtain n3 where B: "take (length ?B) ?t2 = ?B"
    and m3: "match_here [Digits, Lit ?C, DigitsGroup] (drop (length ?B) ?t2) = Some (n3, g)"
    and n2: "n2 = length ?B + n3"
    by blast
  let ?t3 = "drop (length ?B) ?t2"
  from match_digits_D [OF m3] obtain kb n4 where b: "digits (take kb ?t3)"
    and m4: "match_here [Lit ?C, DigitsGroup] (drop kb ?t3) = Some (n4, g)"
    and n3: "n3 = kb + n4"
    by blast
  let ?t4 = "drop kb ?t3"
  from match_lit_D [OF m4] obtain n5 where C: "take (length ?C) ?t4 = ?C"
    and m5: "match_here [DigitsGroup] (drop (length ?C) ?t4) = Some (n5, g)"
    and n4: "n4 = length ?C + n5"
    by blast
  let ?t5 = "drop (length ?C) ?t4"
  from match_group_D [OF m5] obtain kc n6 g6 where c: "digits (take kc ?t5)"
    and m6: "match_here [] (drop kc ?t5) = Some (n6, g6)"
    and n5: "n5 = kc + n6" and g: "g = take kc ?t5 # g6"
    by blast
  from m6 have z: "n6 = 0" "g6 = []" by simp_all
  have "take n t = ?A @ take n1 ?t1" unfolding n using A by (rule take_lit)
  also have "take n1 ?t1 = take ka ?t1 @ take n2 ?t2" unfolding n1 by (rule take_add)
  also have "take n2 ?t2 = ?B @ take n3 ?t3" unfolding n2 using B by (rule take_lit)
  also have "take n3 ?t3 = take kb ?t3 @ take n4 ?t4" unfolding n3 by (rule take_add)
  also have "take n4 ?t4 = ?C @ take n5 ?t5" unfolding n4 using C by (rule take_lit)
  also have "take n5 ?t5 = take kc ?t5" unfolding n5 z by simp
  finally have "take n t = packet_loss_text (take ka ?t1) (take kb ?t3) (take kc ?t5)"
    by (simp add: packet_loss_text_def)
  with a b c g z show ?thesis by blast
qed

lemma exec_packet_loss_iff: "exec packet_loss_re s \<noteq> None \<longleftrightarrow> has_packet_loss s"
proof
  assume "exec packet_loss_re s \<noteq> None"
  then obtain m where "exec packet_loss_re s = Some m" by blast
  from exec_Some [OF this] obtain k n g where
    m: "match_here packet_loss_re (drop k s) = Some (n, g)" by blast
  from loss_match_D [OF m] obtain a b c where d: "digits a" "digits b" "digits c"
    "take n (drop k s) = packet_loss_text a b c"
    by blast
  have "s = take k s @ packet_loss_text a b c @ drop n (drop k s)"
    using split3 [of s k n] unfolding d(4) .
  with d(1-3) have "digits a \<and> digits b \<and> digits c
      \<and> s = take k s @ packet_loss_text a b c @ drop n (drop k s)"
    by (intro conjI)
  then show "has_packet_loss s" unfolding has_packet_loss_def by (intro exI)
next
  assume "has_packet_loss s"
  then obtain pre a b c post where d: "digits a" "digits b" "digits c"
    and s: "s = pre @ packet_loss_text a b c @ post"
    unfolding has_packet_loss_def by blast
  have "drop (length pre) s = packet_loss_text a b c @ post" unfolding s by simp
  with loss_match [OF d, of post]
  have found: "match_here packet_loss_re (drop (length pre) s) \<noteq> None" by auto
  have len: "length pre \<le> length s" unfolding s by simp
  show "exec packet_loss_re s \<noteq> None"
  proof
    assume "exec packet_loss_re s = None"
    from exec_NoneD [OF this len] found show False by simp
  qed
qed

lemma exec_packet_loss_Some:
  assumes "exec packet_loss_re s = Some m"
  shows "\<exists>a b p. digits a \<and> digits b \<and> digits p \<and> m = [packet_loss_text a b p, p]"
proof -
  from exec_Some [OF assms] obtain k n g where
    m: "match_here packet_loss_re (drop k s) = Some (n, g)" and r: "m = take n (drop k s) # g" by blast
  from loss_match_D [OF m] r show ?thesis by auto
qed

section \<open>Properties of the Windows latency driver\<close>

lemma trace_emit [simp]: "trace (emit e s) = trace s @ [e]"
  and table_emit [simp]: "table (emit e s) = table s"
  by (simp_all add: emit_def)

lemma count_emit [simp]: "count (emit e s) = count s"
  by (simp add: emit_def)

lemma insertRecord_simps [simp]:
  "trace (insertRecord i cols s) = trace s @ [InsertRecord i cols]"
  "table (insertRecord i cols s) = table s @ [(i, cols)]"
  by (simp_all add: insertRecord_def)

lemma count_insertRecord [simp]: "count (insertRecord i cols s) = count s"
  by (simp add: insertRecord_def emit_def)

lemma count_up_simps [simp]:
  "count (count_up s) = count s + 1"
  "table (count_up s) = table s"
  "trace (count_up s) = trace s @
     (if count s + 1 = length ipAddresses then [Success (Some (table s))] else [])"
  by (simp_all add: count_up_def Let_def success_table_def)

text \<open>What \<open>resultCallback\<close> does with an output that came with no error.\<close>

lemma resultCallback_matches:
  assumes "has_latency (str_of outp)" and "has_packet_loss (str_of outp)"
  shows "\<exists>l a b p. digits l \<and> digits a \<and> digits b \<and> digits p
      \<and> exec latency_re (str_of outp) = Some [latency_text l, l]
      \<and> exec packet_loss_re (str_of outp) = Some [packet_loss_text a b p, p]
      \<and> resultCallback hash ip outp None s
          = count_up (insertRecord (take 50 (hash ip)) [Str ip, Str l, Str p] s)"
proof -
  from assms(1) obtain ml where ml: "exec latency_re (str_of outp) = Some ml"
    using exec_latency_iff [of "str_of outp"] by auto
  from assms(2) obtain mp where mp: "exec packet_loss_re (str_of outp) = Some mp"
    using exec_packet_loss_iff [of "str_of outp"] by auto
  from exec_latency_Some [OF ml] obtain l where l: "digits l" "ml = [latency_text l, l]"
    by blast
  from exec_packet_loss_Some [OF mp] obtain a b p where p: "digits a" "digits b" "digits p"
    "mp = [packet_loss_text a b p, p]"
    by blast
  have "resultCallback hash ip outp None s
      = count_up (insertRecord (take 50 (hash ip)) [Str ip, Str l, Str p] s)"
    by (simp add: resultCallback_def ml mp l(2) p(4) at_index_def cell_def)
  with l p ml mp show ?thesis by blast
qed

lemma resultCallback_throws:
  assumes "\<not> (has_latency (str_of outp) \<and> has_packet_loss (str_of outp))"
  shows "resultCallback hash ip outp None s = emit (Uncaught TypeError) s"
proof (cases "has_latency (str_of outp)")
  case False
  then have "exec latency_re (str_of outp) = None"
    using exec_latency_iff [of "str_of outp"] by simp
  then show ?thesis by (simp add: resultCallback_def)
next
  case True
  with assms have "exec packet_loss_re (str_of outp) = None"
    using exec_packet_loss_iff [of "str_of outp"] by simp
  then show ?thesis by (simp add: resultCallback_def split: option.splits)
qed

lemma str_of_Some [simp]: "str_of (Some s) = s"
  by (simp add: str_of_def)

text \<open>
  Claim C10. Let \<open>resultCallback\<close> of an address be called with an output and no error.
  If the output contains a substring matching \<^verbatim>\<open>/Average = (\d+)ms/\<close> and one matching
  \<^verbatim>\<open>/Packets: Sent = \d+, Received = \d+, Lost = (\d+)/\<close>, then both \<open>exec\<close> calls match,
  and the callback inserts exactly one record: its id is the first 50 characters of the
  hash of the address, its columns are the address, the digits \<open>l\<close> of the latency
  match and the digits \<open>p\<close> of the loss match; it counts the reply, and calls
  \<open>D.success\<close> if that was the last one. If either substring is missing, reading
  index 1 of the \<open>null\<close> match throws: no record is inserted and the reply is not counted.
\<close>

theorem resultCallback_inserts:
  "if has_latency output \<and> has_packet_loss output
   then \<exists>l a b p. digits l \<and> digits a \<and> digits b \<and> digits p
      \<and> exec latency_re output = Some [latency_text l, l]
      \<and> exec packet_loss_re output = Some [packet_loss_text a b p, p]
      \<and> table (resultCallback hash ip (Some output) None s)
          = table s @ [(take 50 (hash ip), [Str ip, Str l, Str p])]
      \<and> count (resultCallback hash ip (Some output) None s) = count s + 1
      \<and> trace (resultCallback hash ip (Some output) None s)
          = trace s @ [InsertRecord (take 50 (hash ip)) [Str ip, Str l, Str p]]
            @ (if count s + 1 = length ipAddresses
               then [Success (Some (table s @ [(take 50 (hash ip), [Str ip, Str l, Str p])]))]
               else [])
   else table (resultCallback hash ip (Some output) None s) = table s
      \<and> count (resultCallback hash ip (Some output) None s) = count s
      \<and> trace (resultCallback hash ip (Some output) None s) = trace s @ [Uncaught TypeError]"
proof (cases "has_latency output \<and> has_packet_loss output")
  case True
  then obtain l a b p where *: "digits l" "digits a" "digits b" "digits p"
      "exec latency_re output = Some [latency_text l, l]"
      "exec packet_loss_re output = Some [packet_loss_text a b p, p]"
      "resultCallback hash ip (Some output) None s
          = count_up (insertRecord (take 50 (hash ip)) [Str ip, Str l, Str p] s)"
    using resultCallback_matches [of "Some output" hash ip s] by auto
  show ?thesis
    unfolding if_P [OF True] *(7)
    using *(1-6) by (intro exI [of _ l] exI [of _ a] exI [of _ b] exI [of _ p]) simp
next
  case False
  show ?thesis
    unfolding if_not_P [OF False] using resultCallback_throws [of "Some output"] False by simp
qed

text \<open>The last lines of a \<open>ping\<close> of 8.8.8.8, with a stand-in for the hash.\<close>

theorem resultCallback_inserts_witness:
  "has_latency (asc ''    Packets: Sent = 2, Received = 2, Lost = 0 (0% loss),'' @ [0xA]
                @ asc ''    Minimum = 10ms, Maximum = 12ms, Average = 11ms'')
 \<and> has_packet_loss (asc ''    Packets: Sent = 2, Received = 2, Lost = 0 (0% loss),'' @ [0xA]
                @ asc ''    Minimum = 10ms, Maximum = 12ms, Average = 11ms'')
 \<and> table (resultCallback (\<lambda>ip. replicate 64 0x61) (asc ''8.8.8.8'')
      (Some (asc ''    Packets: Sent = 2, Received = 2, Lost = 0 (0% loss),'' @ [0xA]
                @ asc ''    Minimum = 10ms, Maximum = 12ms, Average = 11ms''))
      None windows_init)
   = [(replicate 50 0x61, [Str (asc ''8.8.8.8''), Str (asc ''11''), Str (asc ''0'')])]"
proof -
  let ?out = "asc ''    Packets: Sent = 2, Received = 2, Lost = 0 (0% loss),'' @ [0xA]
                @ asc ''    Minimum = 10ms, Maximum = 12ms, Average = 11ms''"
  have e1: "exec latency_re ?out = Some [asc ''Average = 11ms'', asc ''11'']"
    by code_simp
  have e2: "exec packet_loss_re ?out
      = Some [asc ''Packets: Sent = 2, Received = 2, Lost = 0'', asc ''0'']"
    by code_simp
  have h: "has_latency ?out \<and> has_packet_loss ?out"
    using exec_latency_iff [of ?out] exec_packet_loss_iff [of ?out] e1 e2 by simp
  from resultCallback_inserts [of ?out "\<lambda>ip. replicate 64 0x61" "asc ''8.8.8.8''" windows_init]
  obtain l p where "exec latency_re ?out = Some [latency_text l, l]"
    and "\<exists>a b. exec packet_loss_re ?out = Some [packet_loss_text a b p, p]"
    and "table (resultCallback (\<lambda>ip. replicate 64 0x61) (asc ''8.8.8.8'') (Some ?out) None windows_init)
          = table windows_init @ [(take 50 (replicate 64 0x61), [Str (asc ''8.8.8.8''), Str l, Str p])]"
    unfolding if_P [OF h] by blast
  with e1 e2 h show ?thesis by (auto simp: windows_init_def)
qed

lemma length_ipAddresses [simp]: "length ipAddresses = 5"
  by (simp add: ipAddresses_def)

lemma successes_simps [simp]:
  "successes [] = 0"
  "successes (a @ b) = successes a + successes b"
  "successes (Success x # t) = Suc (successes t)"
  "successes (Callback n # t) = successes t"
  "successes (InsertRecord i c # t) = successes t"
  "successes (ConsoleInfo m # t) = successes t"
  "successes (SendSSHCommand cfg # t) = successes t"
  by (simp_all add: successes_def)

lemma windows_start:
  "count windows_get_status_start = 0" "table windows_get_status_start = []"
  "successes (trace windows_get_status_start) = 0"
  by (simp_all add: windows_get_status_start_def ipAddresses_def ping_def Let_def windows_init_def)

lemma windows_get_status_snoc:
  "windows_get_status hash (rs @ [r]) = windows_on_reply hash (windows_get_status hash rs) r"
  by (simp add: windows_get_status_def)

lemma windows_counts:
  assumes "\<forall>r\<in>set replies. err r = None"
  shows "count (windows_get_status hash replies) = length (filter returns_normally replies)
       \<and> length (table (windows_get_status hash replies)) = count (windows_get_status hash replies)
       \<and> successes (trace (windows_get_status hash replies))
           = (if 5 \<le> count (windows_get_status hash replies) then 1 else 0)
       \<and> (replies \<noteq> [] \<and> returns_normally (last replies)
            \<and> count (windows_get_status hash replies) = 5 \<longrightarrow>
            last (trace (windows_get_status hash replies))
              = Success (Some (table (windows_get_status hash replies))))"
  using assms
proof (induction replies rule: rev_induct)
  case Nil
  then show ?case by (simp add: windows_get_status_def windows_start)
next
  case (snoc r rs)
  let ?s = "windows_get_status hash rs"
  from snoc have IH: "count ?s = length (filter returns_normally rs)"
    "length (table ?s) = count ?s"
    "successes (trace ?s) = (if 5 \<le> count ?s then 1 else 0)"
    by simp_all
  from snoc.prems have e: "err r = None" by simp
  show ?case
  proof (cases "returns_normally r")
    case True
    then have r: "request r < length ipAddresses"
      "has_latency (str_of (out r))" "has_packet_loss (str_of (out r))"
      by (simp_all add: returns_normally_def)
    from resultCallback_matches [OF r(2,3), of hash "ipAddresses ! request r"
        "emit (Callback (request r)) ?s"]
    obtain l p where step: "windows_on_reply hash ?s r
        = count_up (insertRecord (take 50 (hash (ipAddresses ! request r)))
            [Str (ipAddresses ! request r), Str l, Str p] (emit (Callback (request r)) ?s))"
      unfolding windows_on_reply_def using r(1) e by auto
    show ?thesis
      unfolding windows_get_status_snoc step using IH True by (simp add: insertRecord_def emit_def)
  next
    case False
    have step: "windows_on_reply hash ?s r = ?s
        \<or> windows_on_reply hash ?s r = emit (Uncaught TypeError) (emit (Callback (request r)) ?s)"
    proof (cases "request r < length ipAddresses")
      case False
      then show ?thesis by (simp add: windows_on_reply_def)
    next
      case True
      with False e have "\<not> (has_latency (str_of (out r)) \<and> has_packet_loss (str_of (out r)))"
        by (simp add: returns_normally_def)
      from resultCallback_throws [OF this] True e show ?thesis
        by (simp add: windows_on_reply_def)
    qed
    have u: "successes [Uncaught TypeError] = 0" by (simp add: successes_def)
    from step show ?thesis
      unfolding windows_get_status_snoc using IH False
      by (auto simp: emit_def u)
  qed
qed

text \<open>
  Claim C6, as amended. In a run of \<open>get_status\<close> in which no callback is invoked with
  an error, the counter counts the replies whose output has a match for both patterns
  (on any other output \<open>resultCallback\<close> throws before \<open>count++\<close>), and there is a row
  for each of them. After \<open>k\<close> replies \<open>D.success\<close> has been called once if the counter
  has reached the length of \<open>ipAddresses\<close> (five), and not at all before. Where every
  reply has both matches the counter is \<open>k\<close>, and the call is the last thing the
  fifth reply does and passes the table.
\<close>

theorem windows_success_once:
  assumes "list_all (\<lambda>r. err r = None) replies"
  shows "\<forall>k \<le> length replies.
           count (windows_get_status hash (take k replies))
             = length (filter returns_normally (take k replies))
         \<and> length (table (windows_get_status hash (take k replies)))
             = count (windows_get_status hash (take k replies))
         \<and> successes (trace (windows_get_status hash (take k replies)))
             = (if length ipAddresses \<le> count (windows_get_status hash (take k replies))
                then 1 else 0)
         \<and> (list_all returns_normally (take k replies) \<longrightarrow>
               count (windows_get_status hash (take k replies)) = k
             \<and> (k = length ipAddresses \<longrightarrow>
                   last (trace (windows_get_status hash (take k replies)))
                     = Success (Some (table (windows_get_status hash (take k replies))))))"
proof (intro allI impI)
  fix k assume k: "k \<le> length replies"
  let ?rs = "take k replies"
  have e: "\<forall>r\<in>set ?rs. err r = None"
    using assms by (auto simp: list_all_iff dest: in_set_takeD)
  note c = windows_counts [OF e, of hash]
  have n: "list_all returns_normally ?rs \<Longrightarrow> filter returns_normally ?rs = ?rs"
    by (simp add: list_all_iff)
  have l: "?rs \<noteq> [] \<and> returns_normally (last ?rs)"
    if "list_all returns_normally ?rs" and "k = 5"
  proof -
    from that(2) k have ne: "?rs \<noteq> []" by auto
    from last_in_set [OF ne] that(1) show ?thesis using ne by (simp add: list_all_iff)
  qed
  show "count (windows_get_status hash ?rs) = length (filter returns_normally ?rs)
         \<and> length (table (windows_get_status hash ?rs)) = count (windows_get_status hash ?rs)
         \<and> successes (trace (windows_get_status hash ?rs))
             = (if length ipAddresses \<le> count (windows_get_status hash ?rs) then 1 else 0)
         \<and> (list_all returns_normally ?rs \<longrightarrow>
               count (windows_get_status hash ?rs) = k
             \<and> (k = length ipAddresses \<longrightarrow>
                   last (trace (windows_get_status hash ?rs))
                     = Success (Some (table (windows_get_status hash ?rs)))))"
  proof (intro conjI impI)
    show "count (windows_get_status hash ?rs) = length (filter returns_normally ?rs)"
      using c by simp
    show "length (table (windows_get_status hash ?rs)) = count (windows_get_status hash ?rs)"
      using c by simp
    show "successes (trace (windows_get_status hash ?rs))
             = (if length ipAddresses \<le> count (windows_get_status hash ?rs) then 1 else 0)"
      using c by simp
  next
    assume a: "list_all returns_normally ?rs"
    show ck: "count (windows_get_status hash ?rs) = k"
      using c n [OF a] k by simp
    assume k5: "k = length ipAddresses"
    then have "k = 5" by simp
    from l [OF a this] ck this c
    show "last (trace (windows_get_status hash ?rs))
                     = Success (Some (table (windows_get_status hash ?rs)))"
      by simp
  qed
qed

text \<open>Five replies, out of order; after four of them there is no call yet.\<close>

theorem windows_success_once_witness:
  "list_all (\<lambda>r. err r = None)
     (map (\<lambda>n. \<lparr>request = n,
               out = Some (asc ''Packets: Sent = 2, Received = 2, Lost = 0 (0% loss), Average = 11ms''),
               err = None\<rparr>) [3, 0, 4, 1, 2])
 \<and> list_all returns_normally
     (map (\<lambda>n. \<lparr>request = n,
               out = Some (asc ''Packets: Sent = 2, Received = 2, Lost = 0 (0% loss), Average = 11ms''),
               err = None\<rparr>) [3, 0, 4, 1, 2])
 \<and> successes (trace (windows_get_status (\<lambda>ip. ip)
     (map (\<lambda>n. \<lparr>request = n,
               out = Some (asc ''Packets: Sent = 2, Received = 2, Lost = 0 (0% loss), Average = 11ms''),
               err = None\<rparr>) [3, 0, 4, 1, 2]))) = 1
 \<and> successes (trace (windows_get_status (\<lambda>ip. ip)
     (map (\<lambda>n. \<lparr>request = n,
               out = Some (asc ''Packets: Sent = 2, Received = 2, Lost = 0 (0% loss), Average = 11ms''),
               err = None\<rparr>) [3, 0, 4, 1]))) = 0"
proof -
  let ?out = "asc ''Packets: Sent = 2, Received = 2, Lost = 0 (0% loss), Average = 11ms''"
  let ?f = "\<lambda>n. \<lparr>request = n, out = Some ?out, err = None\<rparr>"
  have "exec latency_re ?out \<noteq> None" by code_simp
  then have l: "has_latency ?out" by (simp only: exec_latency_iff)
  have "exec packet_loss_re ?out \<noteq> None" by code_simp
  then have p: "has_packet_loss ?out" by (simp only: exec_packet_loss_iff)
  have e: "list_all (\<lambda>r. err r = None) (map ?f [3, 0, 4, 1, 2])" by simp
  have h: "list_all returns_normally (map ?f [3, 0, 4, 1, 2])"
    using l p by (simp add: returns_normally_def)
  have h4: "list_all returns_normally (take 4 (map ?f [3, 0, 4, 1, 2]))"
    using l p by (simp add: returns_normally_def)
  have t: "take 4 (map ?f [3, 0, 4, 1, 2]) = map ?f [3, 0, 4, 1]" by simp
  from windows_success_once [OF e, of "\<lambda>ip. ip", rule_format, of 5] h
  have a: "successes (trace (windows_get_status (\<lambda>ip. ip) (map ?f [3, 0, 4, 1, 2]))) = 1"
    by simp
  from windows_success_once [OF e, of "\<lambda>ip. ip", rule_format, of 4] h4
  have b: "successes (trace (windows_get_status (\<lambda>ip. ip) (map ?f [3, 0, 4, 1]))) = 0"
    unfolding t by simp
  from e h a b show ?thesis by simp
qed

text \<open>
  As the claim is stated it fails. Five replies, none with an error; the fourth host
  does not answer the ping, and the output for it has no line \<open>Average = ...\<close>. The
  callback of that reply throws when it reads \<open>matchLatency[1]\<close>, the counter stops at
  four, and \<open>D.success\<close> is never called.
\<close>

theorem windows_success_once_counterexample:
  "list_all (\<lambda>r. err r = None)
     (map (\<lambda>n. \<lparr>request = n,
               out = Some (if n = 3
                 then asc ''Packets: Sent = 2, Received = 0, Lost = 2 (100% loss),''
                 else asc ''Packets: Sent = 2, Received = 2, Lost = 0 (0% loss), Average = 11ms''),
               err = None\<rparr>) [0, 1, 2, 3, 4])
 \<and> count (windows_get_status (\<lambda>ip. ip)
     (map (\<lambda>n. \<lparr>request = n,
               out = Some (if n = 3
                 then asc ''Packets: Sent = 2, Received = 0, Lost = 2 (100% loss),''
                 else asc ''Packets: Sent = 2, Received = 2, Lost = 0 (0% loss), Average = 11ms''),
               err = None\<rparr>) [0, 1, 2, 3, 4])) = 4
 \<and> successes (trace (windows_get_status (\<lambda>ip. ip)
     (map (\<lambda>n. \<lparr>request = n,
               out = Some (if n = 3
                 then asc ''Packets: Sent = 2, Received = 0, Lost = 2 (100% loss),''
                 else asc ''Packets: Sent = 2, Received = 2, Lost = 0 (0% loss), Average = 11ms''),
               err = None\<rparr>) [0, 1, 2, 3, 4]))) = 0"
proof -
  let ?ok = "asc ''Packets: Sent = 2, Received = 2, Lost = 0 (0% loss), Average = 11ms''"
  let ?no = "asc ''Packets: Sent = 2, Received = 0, Lost = 2 (100% loss),''"
  let ?f = "\<lambda>n. \<lparr>request = n, out = Some (if n = 3 then ?no else ?ok), err = None\<rparr>"
  have "exec latency_re ?ok \<noteq> None" by code_simp
  then have l: "has_latency ?ok" by (simp only: exec_latency_iff)
  have "exec packet_loss_re ?ok \<noteq> None" by code_simp
  then have p: "has_packet_loss ?ok" by (simp only: exec_packet_loss_iff)
  have "exec latency_re ?no = None" by code_simp
  then have n: "\<not> has_latency ?no" using exec_latency_iff [of ?no] by simp
  have e: "\<forall>r\<in>set (map ?f [0, 1, 2, 3, 4]). err r = None" by simp
  have f: "filter returns_normally (map ?f [0, 1, 2, 3, 4]) = map ?f [0, 1, 2, 4]"
    using l p n by (simp add: returns_normally_def)
  from windows_counts [OF e, of "\<lambda>ip. ip"] show ?thesis
    unfolding f by simp
qed

section \<open>The commands the SSH drivers send\<close>

lemma sent_append [simp]: "sent (a @ b) = sent a @ sent b"
  by (induction a) (simp_all split: event.splits)

lemma sent_upto_failure: "sent es = [] \<Longrightarrow> sent (upto_failure es) = []"
  by (induction es) (auto split: event.splits)

lemma upto_failure_append:
  "\<forall>e\<in>set a. \<forall>t. e \<noteq> Failure t \<Longrightarrow> upto_failure (a @ b) = a @ upto_failure b"
  by (induction a) (auto split: event.splits)

text \<open>When a run starts with requests and later only adds events that are no commands,
  the commands seen are those of the start, whether or not \<open>D.failure\<close> ends the script.\<close>

lemma sent_observed:
  assumes "\<forall>e\<in>set a. \<forall>t. e \<noteq> Failure t" and "sent b = []"
  shows "sent (observed h (a @ b)) = sent a"
  using assms by (simp add: observed_def upto_failure_append sent_upto_failure)

lemma trace_insert_routes:
  "trace (foldl (insert_route v) s lines)
     = trace s @ map (\<lambda>l. InsertRecord (fst (route_record v l)) (snd (route_record v l))) lines"
  "table (foldl (insert_route v) s lines) = table s @ map (route_record v) lines"
  "joined (foldl (insert_route v) s lines) = joined s"
  by (induction lines arbitrary: s) (simp_all add: insert_route_def insertRecord_def emit_def)

lemma sent_inserts [simp]: "sent (map (\<lambda>l. InsertRecord (f l) (g l)) lines) = []"
  by (induction lines) simp_all

text \<open>A reply adds no command to the trace.\<close>

lemma quiet_foldl:
  assumes "\<And>s r. quiet s (f s r)"
  shows "quiet s (foldl f s rs)"
proof (induction rs rule: rev_induct)
  case Nil
  show ?case by (simp add: quiet_def)
next
  case (snoc r rs)
  from snoc obtain es where es: "trace (foldl f s rs) = trace s @ es" "sent es = []"
    by (auto simp: quiet_def)
  from assms [of "foldl f s rs" r] obtain es' where
    "trace (f (foldl f s rs) r) = trace (foldl f s rs) @ es'" "sent es' = []"
    by (auto simp: quiet_def)
  with es show ?case by (simp add: quiet_def)
qed

lemma quiet_route_reply: "quiet s (route_reply v c i r (emit (Callback n) s))"
  by (cases "out r"; cases "err r")
     (simp_all add: quiet_def route_reply_def exec_command_cb_def trace_insert_routes route_done_def
       Let_def success_table_def failure_def console_error_def)

lemma quiet_freebsd: "quiet s (freebsd_on_reply s r)"
  using quiet_route_reply [of s] by (simp add: freebsd_on_reply_def) (simp add: quiet_def)

lemma quiet_freebsd_validate: "quiet s (freebsd_validate_reply s r)"
  by (cases "out r"; cases "err r")
     (simp_all add: quiet_def freebsd_validate_reply_def exec_command_cb_def 
       Let_def failure_def console_error_def)

lemma quiet_windows: "quiet s (windows_on_reply hash s r)"
proof (cases "request r < length ipAddresses")
  case False
  then show ?thesis by (simp add: windows_on_reply_def quiet_def)
next
  case True
  show ?thesis
  proof (cases "err r")
    case (Some e)
    with True show ?thesis
      by (simp add: windows_on_reply_def quiet_def resultCallback_def checkSshError_def Let_def
            failure_def console_error_def split: option.splits)
  next
    case None
    show ?thesis
    proof (cases "has_latency (str_of (out r)) \<and> has_packet_loss (str_of (out r))")
      case False
      from resultCallback_throws [OF this] True None show ?thesis
        by (simp add: windows_on_reply_def quiet_def)
    next
      case yes: True
      then obtain l p where "resultCallback hash (ipAddresses ! request r) (out r) None
           (emit (Callback (request r)) s)
          = count_up (insertRecord (take 50 (hash (ipAddresses ! request r)))
              [Str (ipAddresses ! request r), Str l, Str p] (emit (Callback (request r)) s))"
        using resultCallback_matches [of "out r" hash "ipAddresses ! request r"
          "emit (Callback (request r)) s"] by auto
      with True None show ?thesis
        by (simp add: windows_on_reply_def quiet_def)
    qed
  qed
qed

lemma freebsd_start:
  "trace (freebsd_get_status_start creds)
     = [SendSSHCommand \<lparr>username = Some (fst creds), password = Some (snd creds), port = Some 22,
                         prompt = None, timeout = 30000, command = Some route_v4_cmd\<rparr>,
        SendSSHCommand \<lparr>username = Some (fst creds), password = Some (snd creds), port = Some 22,
                         prompt = None, timeout = 30000, command = Some route_v6_cmd\<rparr>]"
  "table (freebsd_get_status_start creds) = []"
  "joined (freebsd_get_status_start creds) = execute_all_start 2"
  by (simp_all add: freebsd_get_status_start_def exec_command_def Let_def freebsd_init_def emit_def)

lemma freebsd_validate_start:
  "trace (exec_command validate_cmd (freebsd_init creds))
     = [SendSSHCommand \<lparr>username = Some (fst creds), password = Some (snd creds), port = Some 22,
                         prompt = None, timeout = 30000, command = Some validate_cmd\<rparr>]"
  by (simp add: exec_command_def Let_def freebsd_init_def emit_def)

lemma windows_start_trace:
  "sent (trace windows_get_status_start) = map (\<lambda>ip. Some (asc ''ping -n 2 '' @ ip)) ipAddresses"
  "\<forall>e\<in>set (trace windows_get_status_start). \<forall>t. e \<noteq> Failure t"
  by (simp_all add: windows_get_status_start_def ipAddresses_def ping_def Let_def windows_init_def
        pktno_def asc_def)

text \<open>
  Claim C5. The commands of the two SSH drivers do not depend on the replies: whatever
  the replies of a run are, and whether or not \<open>D.failure\<close> ends the script,
  \<open>get_status\<close> of the FreeBSD driver sends the two \<open>netstat\<close> commands for IPv4 and
  IPv6 and nothing else, its \<open>validate\<close> sends \<open>netstat -r -n\<close> and nothing else, and
  \<open>get_status\<close> of the Windows driver sends one \<open>ping -n 2\<close> command for each entry
  of \<open>ipAddresses\<close>, in the order of the list, and nothing else.
\<close>

theorem commands_fixed:
  "sent (observed h (trace (freebsd_get_status creds replies)))
     = [Some (asc ''netstat -4 -r -n | tail -n +5''), Some (asc ''netstat -6 -r -n | tail -n +5'')]
 \<and> sent (observed h (trace (freebsd_validate creds replies))) = [Some (asc ''netstat -r -n'')]
 \<and> sent (observed h (trace (windows_get_status hash replies)))
     = map (\<lambda>ip. Some (asc ''ping -n 2 '' @ ip)) ipAddresses"
proof (intro conjI)
  let ?start = "freebsd_get_status_start creds"
  have "quiet ?start (freebsd_get_status creds replies)"
    unfolding freebsd_get_status_def by (rule quiet_foldl) (rule quiet_freebsd)
  then obtain es where eq: "trace (freebsd_get_status creds replies) = trace ?start @ es"
    and q: "sent es = []"
    by (auto simp: quiet_def)
  have nf: "\<forall>e\<in>set (trace ?start). \<forall>t. e \<noteq> Failure t"
    by (simp add: freebsd_start)
  have "sent (observed h (trace (freebsd_get_status creds replies))) = sent (trace ?start)"
    unfolding eq using nf q by (rule sent_observed)
  also have "\<dots> = [Some (asc ''netstat -4 -r -n | tail -n +5''),
      Some (asc ''netstat -6 -r -n | tail -n +5'')]"
    by (simp add: freebsd_start route_v4_cmd_def route_v6_cmd_def)
  finally show "sent (observed h (trace (freebsd_get_status creds replies)))
     = [Some (asc ''netstat -4 -r -n | tail -n +5''), Some (asc ''netstat -6 -r -n | tail -n +5'')]" .
next
  let ?start = "exec_command validate_cmd (freebsd_init creds)"
  have "quiet ?start (freebsd_validate creds replies)"
    unfolding freebsd_validate_def by (rule quiet_foldl) (rule quiet_freebsd_validate)
  then obtain es where eq: "trace (freebsd_validate creds replies) = trace ?start @ es"
    and q: "sent es = []"
    by (auto simp: quiet_def)
  have nf: "\<forall>e\<in>set (trace ?start). \<forall>t. e \<noteq> Failure t"
    by (simp add: freebsd_validate_start)
  have "sent (observed h (trace (freebsd_validate creds replies))) = sent (trace ?start)"
    unfolding eq using nf q by (rule sent_observed)
  also have "\<dots> = [Some (asc ''netstat -r -n'')]"
    unfolding freebsd_validate_start by (simp add: validate_cmd_def)
  finally show "sent (observed h (trace (freebsd_validate creds replies)))
     = [Some (asc ''netstat -r -n'')]" .
next
  let ?start = "windows_get_status_start"
  have "quiet ?start (windows_get_status hash replies)"
    unfolding windows_get_status_def by (rule quiet_foldl) (rule quiet_windows)
  then obtain es where eq: "trace (windows_get_status hash replies) = trace ?start @ es"
    and q: "sent es = []"
    by (auto simp: quiet_def)
  have "sent (observed h (trace (windows_get_status hash replies))) = sent (trace ?start)"
    unfolding eq using windows_start_trace(2) q by (rule sent_observed)
  then show "sent (observed h (trace (windows_get_status hash replies)))
     = map (\<lambda>ip. Some (asc ''ping -n 2 '' @ ip)) ipAddresses"
    by (simp only: windows_start_trace(1))
qed

section \<open>The rows of the FreeBSD route driver\<close>

lemma split_ws_hd: "str_of (at_index (split_ws line) 0) = hd (split_ws line)"
  by (subst (1 2) split_ws.simps) (simp add: at_index_def split: list.splits)

lemma route_reply_ok:
  "route_reply v c i \<lparr>request = n, out = Some text, err = None\<rparr> s
     = route_done i (foldl (insert_route v) s (split_nl text))"
  by (simp add: route_reply_def exec_command_cb_def)

lemma route_done_first:
  assumes "joined s = execute_all_start 2" "i < 2"
  shows "trace (route_done i s) = trace s" "table (route_done i s) = table s"
    "finished (joined (route_done i s)) = 1" "calls (joined (route_done i s)) = []"
  using assms by (simp_all add: route_done_def done_cb_def execute_all_start_def Let_def)

lemma route_done_second:
  assumes "finished (joined s) = 1" "calls (joined s) = []"
  shows "trace (route_done i s) = trace s @ [Success (Some (table s))]"
    "table (route_done i s) = table s"
  using assms by (simp_all add: route_done_def done_cb_def Let_def success_table_def)

text \<open>The pieces \<open>split\<close> gives are the lines and the fields of the claim, with the
  empty pieces at the ends.\<close>

lemma lines_of_Cons:
  "lines_of (c # cs) =
     (if c = 0xA then [] # lines_of cs
      else (case lines_of cs of [] \<Rightarrow> [[c]] | l # ls \<Rightarrow> (c # l) # ls))"
proof (cases "c = 0xA")
  case True
  then show ?thesis by (simp add: lines_of.simps(2))
next
  case False
  show ?thesis
  proof (cases cs)
    case Nil
    with False show ?thesis by (simp add: lines_of.simps(2))
  next
    case (Cons d ds)
    with False show ?thesis by (simp add: lines_of.simps(2) [of c] lines_of.simps(2) [of d])
  qed
qed

lemma lines_of_Nil_iff: "lines_of s = [] \<longleftrightarrow> s = []"
  by (cases s) (simp_all add: lines_of.simps(2))

lemma split_nl_pieces: "split_nl s = pieces s"
proof (induction s)
  case Nil
  show ?case by (simp add: pieces_def)
next
  case (Cons c cs)
  show ?case
  proof (cases "c = 0xA")
    case True
    with Cons show ?thesis by (simp add: pieces_def lines_of_Cons)
  next
    case False
    show ?thesis
    proof (cases "lines_of cs")
      case Nil
      then have "cs = []" by (simp add: lines_of_Nil_iff)
      with False show ?thesis by (simp add: pieces_def lines_of_Cons)
    next
      case (Cons l ls)
      then have "cs \<noteq> []" using lines_of_Nil_iff [of cs] by auto
      with False Cons Cons.IH show ?thesis by (simp add: pieces_def lines_of_Cons)
    qed
  qed
qed

lemma fields_no_space:
  "\<forall>c\<in>set w. \<not> is_space c \<Longrightarrow> u = [] \<or> is_space (hd u) \<Longrightarrow>
     fields_of (w @ u) = (if w = [] then [] else [w]) @ fields_of u"
proof (induction w)
  case Nil
  show ?case by simp
next
  case (Cons c w)
  show ?case
  proof (cases w)
    case Nil
    with Cons.prems show ?thesis by auto
  next
    case (Cons d ds)
    with Cons.prems Cons.IH show ?thesis by (auto simp: hd_append)
  qed
qed

lemma fields_dropWhile: "fields_of (dropWhile is_space s) = fields_of s"
  by (induction s) simp_all

lemma split_this:
  "s = takeWhile (\<lambda>c. \<not> is_space c) s @ dropWhile (\<lambda>c. \<not> is_space c) s"
  by simp

lemma split_ws_fields: "split_ws s = split_fields s"
proof (induction s rule: split_ws.induct)
  case (1 s)
  define w where "w = takeWhile (\<lambda>c. \<not> is_space c) s"
  define u where "u = dropWhile (\<lambda>c. \<not> is_space c) s"
  have s: "s = w @ u" unfolding w_def u_def by simp
  have w: "\<forall>c\<in>set w. \<not> is_space c" unfolding w_def by (auto dest: set_takeWhileD)
  have u: "u = [] \<or> is_space (hd u)"
    unfolding u_def using hd_dropWhile [of "\<lambda>c. \<not> is_space c" s] by auto
  note f = fields_no_space [OF w u]
  show ?case
  proof (cases u)
    case Nil
    then have sw: "split_ws s = [w]"
      by (subst split_ws.simps) (simp add: u_def [symmetric] w_def [symmetric])
    from Nil s have sw': "s = w" by simp
    have "split_fields w = [w]"
      using w f Nil by (cases "w = []") (auto simp: split_fields_def last_in_set hd_in_set)
    with sw sw' show ?thesis by simp
  next
    case (Cons r rs)
    define t where "t = dropWhile is_space rs"
    have sw: "split_ws s = w # split_ws t"
      by (subst split_ws.simps) (simp add: u_def [symmetric] w_def [symmetric] Cons t_def)
    from "1.IH" [of r rs] Cons have IH: "split_ws t = split_fields t"
      by (simp add: u_def t_def)
    from u Cons have r: "is_space r" by simp
    have ft: "fields_of u = fields_of t"
      unfolding Cons t_def using r by (simp add: fields_dropWhile)
    have lead: "(if s = [] \<or> is_space (hd s) then [[]] else []) @ (if w = [] then [] else [w]) = [w]"
      using w r unfolding s Cons by (cases w) auto
    have rest: "fields_of t @ (if s \<noteq> [] \<and> is_space (last s) then [[]] else []) = split_fields t"
    proof (cases t)
      case Nil
      then have "\<forall>c\<in>set rs. is_space c"
        unfolding t_def by (simp add: dropWhile_eq_Nil_conv)
      then have "is_space (last (r # rs))" using r by (cases rs) (auto simp: last_in_set)
      then have "is_space (last s)" unfolding s Cons by simp
      with Nil show ?thesis unfolding s Cons by (simp add: split_fields_def)
    next
      case (Cons d ds)
      then have d: "\<not> is_space d"
        using hd_dropWhile [of is_space rs] unfolding t_def by auto
      have "rs = takeWhile is_space rs @ t" unfolding t_def by simp
      then have "last rs = last t" using Cons by (metis last_appendR list.distinct(1))
      moreover have "rs \<noteq> []" using Cons unfolding t_def by auto
      ultimately have "last s = last t" unfolding s \<open>u = r # rs\<close> by simp
      with Cons d show ?thesis unfolding s \<open>u = r # rs\<close> by (simp add: split_fields_def)
    qed
    have "split_fields s
        = ((if s = [] \<or> is_space (hd s) then [[]] else []) @ (if w = [] then [] else [w]))
          @ (fields_of t @ (if s \<noteq> [] \<and> is_space (last s) then [[]] else []))"
      unfolding split_fields_def using f ft by (simp add: s [symmetric])
    then show ?thesis unfolding lead rest sw IH by simp
  qed
qed

lemma split_fields_hd: "str_of (at_index (split_fields line) 0) = hd (split_fields line)"
  using split_ws_hd [of line] by (simp add: split_ws_fields)

lemma route_rows_eq: "map (route_record v) (split_nl text) = route_rows v text"
  by (simp add: route_rows_def route_record_def Let_def split_nl_pieces split_ws_fields
        split_fields_hd)

lemma fields_Nil_iff: "fields_of s = [] \<longleftrightarrow> (\<forall>c\<in>set s. is_space c)"
  by (induction s) (auto split: list.splits)

lemma tidy_rows:
  assumes "tidy text"
  shows "route_rows v text = claimed_rows v text"
proof -
  from assms have p: "pieces text = lines_of text" by (simp add: tidy_def pieces_def)
  have "split_fields l = fields_of l \<and> hd (fields_of l) = str_of (at_index (fields_of l) 0)"
    if "l \<in> set (lines_of text)" for l
  proof -
    from that assms have l: "l \<noteq> []" "\<not> is_space (hd l)" "\<not> is_space (last l)"
      by (simp_all add: tidy_def list_all_iff)
    then have "fields_of l \<noteq> []" using fields_Nil_iff [of l] hd_in_set [of l] by auto
    then show ?thesis using l
      by (cases "fields_of l") (simp_all add: split_fields_def at_index_def str_of_def)
  qed
  then show ?thesis unfolding route_rows_def claimed_rows_def p by simp
qed

lemma inserted_eq:
  "map (\<lambda>l. InsertRecord (fst (route_record v l)) (snd (route_record v l))) (split_nl text)
     = inserted (route_rows v text)"
  unfolding route_rows_eq [symmetric] inserted_def by (simp add: comp_def)

lemma successes_inserted [simp]: "successes (inserted rows) = 0"
  by (induction rows) (simp_all add: inserted_def)

text \<open>The first of the two replies inserts its rows; the second inserts its own and
  calls \<open>D.success\<close> with the table.\<close>

lemma freebsd_two_replies:
  assumes "i < 2" "j < 2"
  shows "trace (route_reply w d j (ok_reply m text')
            (emit (Callback m) (route_reply v c i (ok_reply n text)
              (emit (Callback n) (freebsd_get_status_start creds)))))
         = trace (freebsd_get_status_start creds)
           @ [Callback n] @ inserted (route_rows v text)
           @ [Callback m] @ inserted (route_rows w text')
           @ [Success (Some (route_rows v text @ route_rows w text'))]"
    and "table (route_reply w d j (ok_reply m text')
            (emit (Callback m) (route_reply v c i (ok_reply n text)
              (emit (Callback n) (freebsd_get_status_start creds)))))
         = route_rows v text @ route_rows w text'"
proof -
  let ?s0 = "emit (Callback n) (freebsd_get_status_start creds)"
  let ?s1 = "foldl (insert_route v) ?s0 (split_nl text)"
  let ?s2 = "route_done i ?s1"
  let ?s3 = "emit (Callback m) ?s2"
  let ?s4 = "foldl (insert_route w) ?s3 (split_nl text')"
  have j1: "joined ?s1 = execute_all_start 2"
    by (simp add: trace_insert_routes freebsd_start emit_def)
  have t1: "trace ?s1 = trace (freebsd_get_status_start creds) @ [Callback n] @ inserted (route_rows v text)"
    and b1: "table ?s1 = route_rows v text"
    by (simp_all add: trace_insert_routes inserted_eq route_rows_eq freebsd_start)
  note d1 = route_done_first [OF j1 assms(1)]
  have j4: "finished (joined ?s4) = 1" "calls (joined ?s4) = []"
    using d1(3,4) by (simp_all add: trace_insert_routes emit_def)
  have t4: "trace ?s4 = trace (freebsd_get_status_start creds) @ [Callback n]
      @ inserted (route_rows v text) @ [Callback m] @ inserted (route_rows w text')"
    and b4: "table ?s4 = route_rows v text @ route_rows w text'"
    by (simp_all add: trace_insert_routes inserted_eq route_rows_eq d1 t1 b1 freebsd_start)
  note d4 = route_done_second [OF j4, of j]
  show "trace (route_reply w d j (ok_reply m text')
            (emit (Callback m) (route_reply v c i (ok_reply n text)
              (emit (Callback n) (freebsd_get_status_start creds)))))
         = trace (freebsd_get_status_start creds)
           @ [Callback n] @ inserted (route_rows v text)
           @ [Callback m] @ inserted (route_rows w text')
           @ [Success (Some (route_rows v text @ route_rows w text'))]"
    unfolding ok_reply_def route_reply_ok d4 t4 b4 by simp
  show "table (route_reply w d j (ok_reply m text')
            (emit (Callback m) (route_reply v c i (ok_reply n text)
              (emit (Callback n) (freebsd_get_status_start creds)))))
         = route_rows v text @ route_rows w text'"
    unfolding ok_reply_def route_reply_ok d4 b4 by simp
qed

text \<open>
  Claim C4, as amended. In a run of \<open>get_status\<close> in which both commands succeed, with
  outputs \<open>v4\<close> and \<open>v6\<close>, whichever reply comes first: after the two commands are
  sent, each reply inserts a row for every piece of its output between line feeds
  (\<open>route_rows\<close>), the second reply then calls \<open>D.success\<close> with the table, which holds
  exactly these rows, and this is the only call of \<open>D.success\<close> and the last event of
  the run. For a tidy output these are the rows of the claim: one for each line, made
  of the first four white-space-separated fields of the line.
\<close>

theorem freebsd_routes:
  "trace (freebsd_get_status creds [ok_reply 0 v4, ok_reply 1 v6])
     = trace (freebsd_get_status_start creds)
       @ [Callback 0] @ inserted (route_rows (asc ''ip_v4'') v4)
       @ [Callback 1] @ inserted (route_rows (asc ''ip_v6'') v6)
       @ [Success (Some (route_rows (asc ''ip_v4'') v4 @ route_rows (asc ''ip_v6'') v6))]
 \<and> trace (freebsd_get_status creds [ok_reply 1 v6, ok_reply 0 v4])
     = trace (freebsd_get_status_start creds)
       @ [Callback 1] @ inserted (route_rows (asc ''ip_v6'') v6)
       @ [Callback 0] @ inserted (route_rows (asc ''ip_v4'') v4)
       @ [Success (Some (route_rows (asc ''ip_v6'') v6 @ route_rows (asc ''ip_v4'') v4))]
 \<and> successes (trace (freebsd_get_status creds [ok_reply 0 v4, ok_reply 1 v6])) = 1
 \<and> successes (trace (freebsd_get_status creds [ok_reply 1 v6, ok_reply 0 v4])) = 1
 \<and> (tidy v4 \<longrightarrow> route_rows (asc ''ip_v4'') v4 = claimed_rows (asc ''ip_v4'') v4)
 \<and> (tidy v6 \<longrightarrow> route_rows (asc ''ip_v6'') v6 = claimed_rows (asc ''ip_v6'') v6)"
proof -
  have a: "freebsd_get_status creds [ok_reply 0 v4, ok_reply 1 v6]
      = route_reply (asc ''ip_v6'') route_v6_cmd 1 (ok_reply 1 v6)
          (emit (Callback 1) (route_reply (asc ''ip_v4'') route_v4_cmd 0 (ok_reply 0 v4)
            (emit (Callback 0) (freebsd_get_status_start creds))))"
    by (simp add: freebsd_get_status_def freebsd_on_reply_def ok_reply_def)
  have b: "freebsd_get_status creds [ok_reply 1 v6, ok_reply 0 v4]
      = route_reply (asc ''ip_v4'') route_v4_cmd 0 (ok_reply 0 v4)
          (emit (Callback 0) (route_reply (asc ''ip_v6'') route_v6_cmd 1 (ok_reply 1 v6)
            (emit (Callback 1) (freebsd_get_status_start creds))))"
    by (simp add: freebsd_get_status_def freebsd_on_reply_def ok_reply_def)
  have s: "successes (trace (freebsd_get_status_start creds)) = 0"
    by (simp add: freebsd_start)
  show ?thesis
    unfolding a b by (simp add: freebsd_two_replies s tidy_rows)
qed

text \<open>The IPv6 reply first. The columns of the IPv4 table are aligned with blanks, and
  its second line has three fields only.\<close>

theorem freebsd_routes_witness:
  "tidy (asc ''default            10.0.0.1           UGS         em0'' @ [0xA]
         @ asc ''10.0.0.0/24        link#1             U'')
 \<and> tidy (asc ''::1      link#2     UH     lo0'')
 \<and> last (trace (freebsd_get_status (asc ''admin'', asc ''secret'')
     [ok_reply 1 (asc ''::1      link#2     UH     lo0''),
      ok_reply 0 (asc ''default            10.0.0.1           UGS         em0'' @ [0xA]
                  @ asc ''10.0.0.0/24        link#1             U'')]))
   = Success (Some
      [(asc ''ip_v6>::1'', [Str (asc ''::1''), Str (asc ''link#2''), Str (asc ''UH''), Str (asc ''lo0'')]),
       (asc ''ip_v4>default'',
          [Str (asc ''default''), Str (asc ''10.0.0.1''), Str (asc ''UGS''), Str (asc ''em0'')]),
       (asc ''ip_v4>10.0.0.0/24'',
          [Str (asc ''10.0.0.0/24''), Str (asc ''link#1''), Str (asc ''U''), Undefined])])"
proof -
  let ?v6 = "asc ''::1      link#2     UH     lo0''"
  let ?l1 = "asc ''default            10.0.0.1           UGS         em0''"
  let ?l2 = "asc ''10.0.0.0/24        link#1             U''"
  have n6: "lines_of ?v6 = [?v6]"
    by (simp add: lines_of_Cons asc_def)
  have n4: "lines_of (?l1 @ [0xA] @ ?l2) = [?l1, ?l2]"
    by (simp add: lines_of_Cons asc_def)
  have f6: "fields_of ?v6 = [asc ''::1'', asc ''link#2'', asc ''UH'', asc ''lo0'']"
    by (simp add: is_space_def asc_def)
  have f4: "fields_of ?l1 = [asc ''default'', asc ''10.0.0.1'', asc ''UGS'', asc ''em0'']"
    "fields_of ?l2 = [asc ''10.0.0.0/24'', asc ''link#1'', asc ''U'']"
    by (simp_all add: is_space_def asc_def)
  have e: "hd ?v6 = 0x3A" "last ?v6 = 0x30" "hd ?l1 = 0x64" "last ?l1 = 0x30"
    "hd ?l2 = 0x31" "last ?l2 = 0x55" "last (?l1 @ [0xA] @ ?l2) = 0x55"
    by (simp_all add: asc_def)
  have t6: "tidy ?v6"
    unfolding tidy_def n6 e by (simp add: is_space_def) (simp add: asc_def)
  have t4: "tidy (?l1 @ [0xA] @ ?l2)"
    unfolding tidy_def n4 e by (simp add: is_space_def) (simp add: asc_def)
  have r6: "claimed_rows (asc ''ip_v6'') ?v6
      = [(asc ''ip_v6>::1'', [Str (asc ''::1''), Str (asc ''link#2''), Str (asc ''UH''), Str (asc ''lo0'')])]"
    unfolding claimed_rows_def n6 by (simp add: f6 at_index_def cell_def str_of_def) (simp add: asc_def)
  have r4: "claimed_rows (asc ''ip_v4'') (?l1 @ [0xA] @ ?l2)
      = [(asc ''ip_v4>default'',
          [Str (asc ''default''), Str (asc ''10.0.0.1''), Str (asc ''UGS''), Str (asc ''em0'')]),
         (asc ''ip_v4>10.0.0.0/24'',
          [Str (asc ''10.0.0.0/24''), Str (asc ''link#1''), Str (asc ''U''), Undefined])]"
    unfolding claimed_rows_def n4 by (simp add: f4 at_index_def cell_def str_of_def) (simp add: asc_def)
  from freebsd_routes [of "(asc ''admin'', asc ''secret'')" "?l1 @ [0xA] @ ?l2" ?v6] t4 t6
  have "last (trace (freebsd_get_status (asc ''admin'', asc ''secret'')
          [ok_reply 1 ?v6, ok_reply 0 (?l1 @ [0xA] @ ?l2)]))
      = Success (Some (claimed_rows (asc ''ip_v6'') ?v6 @ claimed_rows (asc ''ip_v4'') (?l1 @ [0xA] @ ?l2)))"
    by simp
  with t4 t6 show ?thesis unfolding r4 r6 by simp
qed

text \<open>
  As the claim is stated it fails on an output that ends with a line feed, as the
  output of a command does. Each of the two outputs here is one line and its line
  feed; the driver inserts for each the row of the line and a row more, with an
  empty destination and three cells \<open>undefined\<close>, and passes four rows to \<open>D.success\<close>.
\<close>

theorem freebsd_routes_counterexample:
  "lines_of (asc ''default 10.0.0.1 UGS em0'' @ [0xA]) = [asc ''default 10.0.0.1 UGS em0'']
 \<and> lines_of (asc ''::1 link#2 UH lo0'' @ [0xA]) = [asc ''::1 link#2 UH lo0'']
 \<and> last (trace (freebsd_get_status (asc ''admin'', asc ''secret'')
     [ok_reply 0 (asc ''default 10.0.0.1 UGS em0'' @ [0xA]),
      ok_reply 1 (asc ''::1 link#2 UH lo0'' @ [0xA])]))
   = Success (Some
      [(asc ''ip_v4>default'',
          [Str (asc ''default''), Str (asc ''10.0.0.1''), Str (asc ''UGS''), Str (asc ''em0'')]),
       (asc ''ip_v4>'', [Str [], Undefined, Undefined, Undefined]),
       (asc ''ip_v6>::1'', [Str (asc ''::1''), Str (asc ''link#2''), Str (asc ''UH''), Str (asc ''lo0'')]),
       (asc ''ip_v6>'', [Str [], Undefined, Undefined, Undefined])])"
proof -
  let ?l4 = "asc ''default 10.0.0.1 UGS em0''"
  let ?l6 = "asc ''::1 link#2 UH lo0''"
  have n: "lines_of (?l4 @ [0xA]) = [?l4]" "lines_of (?l6 @ [0xA]) = [?l6]"
    by (simp_all add: lines_of_Cons asc_def)
  have p: "pieces (?l4 @ [0xA]) = [?l4, []]" "pieces (?l6 @ [0xA]) = [?l6, []]"
    unfolding pieces_def n by simp_all
  have f: "fields_of ?l4 = [asc ''default'', asc ''10.0.0.1'', asc ''UGS'', asc ''em0'']"
    "fields_of ?l6 = [asc ''::1'', asc ''link#2'', asc ''UH'', asc ''lo0'']"
    by (simp_all add: is_space_def asc_def)
  have e: "hd ?l4 = 0x64" "last ?l4 = 0x30" "hd ?l6 = 0x3A" "last ?l6 = 0x30"
    "?l4 \<noteq> []" "?l6 \<noteq> []"
    by (simp_all add: asc_def)
  have sf: "split_fields ?l4 = fields_of ?l4" "split_fields ?l6 = fields_of ?l6"
    "split_fields [] = [[]]"
    unfolding split_fields_def e by (simp_all add: is_space_def e(5,6))
  have r4: "route_rows (asc ''ip_v4'') (?l4 @ [0xA])
      = [(asc ''ip_v4>default'',
          [Str (asc ''default''), Str (asc ''10.0.0.1''), Str (asc ''UGS''), Str (asc ''em0'')]),
         (asc ''ip_v4>'', [Str [], Undefined, Undefined, Undefined])]"
    unfolding route_rows_def p by (simp add: sf f at_index_def cell_def) (simp add: asc_def)
  have r6: "route_rows (asc ''ip_v6'') (?l6 @ [0xA])
      = [(asc ''ip_v6>::1'', [Str (asc ''::1''), Str (asc ''link#2''), Str (asc ''UH''), Str (asc ''lo0'')]),
         (asc ''ip_v6>'', [Str [], Undefined, Undefined, Undefined])]"
    unfolding route_rows_def p by (simp add: sf f at_index_def cell_def) (simp add: asc_def)
  have a: "freebsd_get_status (asc ''admin'', asc ''secret'')
        [ok_reply 0 (?l4 @ [0xA]), ok_reply 1 (?l6 @ [0xA])]
      = route_reply (asc ''ip_v6'') route_v6_cmd 1 (ok_reply 1 (?l6 @ [0xA]))
          (emit (Callback 1) (route_reply (asc ''ip_v4'') route_v4_cmd 0 (ok_reply 0 (?l4 @ [0xA]))
            (emit (Callback 0) (freebsd_get_status_start (asc ''admin'', asc ''secret'')))))"
    by (simp add: freebsd_get_status_def freebsd_on_reply_def ok_reply_def)
  have "last (trace (freebsd_get_status (asc ''admin'', asc ''secret'')
          [ok_reply 0 (?l4 @ [0xA]), ok_reply 1 (?l6 @ [0xA])]))
      = Success (Some (route_rows (asc ''ip_v4'') (?l4 @ [0xA])
                        @ route_rows (asc ''ip_v6'') (?l6 @ [0xA])))"
    unfolding a by (simp add: freebsd_two_replies)
  then show ?thesis unfolding r4 r6 n by simp
qed

section \<open>What the drivers do with an error\<close>

lemma added_append [simp]: "trace s' = trace s @ es \<Longrightarrow> added s s' = es"
  by (simp add: added_def)

lemma trace_failure [simp]: "trace (failure t s) = trace s @ [Failure t]"
  and trace_console_error [simp]: "trace (console_error x s) = trace s @ [ConsoleError x]"
  and trace_success_table [simp]: "trace (success_table s) = trace s @ [Success (Some (table s))]"
  by (simp_all add: failure_def console_error_def success_table_def)

lemma table_failure [simp]: "table (failure t s) = table s"
  and table_console_error [simp]: "table (console_error x s) = table s"
  and table_success_table [simp]: "table (success_table s) = table s"
  by (simp_all add: failure_def console_error_def success_table_def)

lemma upto_failure_logs [simp]:
  "upto_failure (ConsoleError x # es) = ConsoleError x # upto_failure es"
  "upto_failure (Failure t # es) = [Failure t]"
  by simp_all

text \<open>The callbacks of the four drivers, entered with an error \<open>e\<close>.\<close>

lemma freebsd_error_reaction:
  assumes "err r = Some e"
  shows "\<exists>rest. trace (route_reply v cmd i r s)
      = trace s @ [ConsoleError (Text (asc ''error while executing command: '' @ cmd)),
                   ConsoleError (Obj e), Failure None] @ rest"
  using assms
  by (cases "out r")
     (simp_all add: route_reply_def exec_command_cb_def trace_insert_routes route_done_def Let_def)

lemma windows_error_reaction:
  "\<exists>rest. trace (resultCallback hash ip outp (Some e) s) = trace s @ ssh_error_head e @ rest"
  by (cases "message e")
     (simp_all add: resultCallback_def checkSshError_def ssh_error_head_def Let_def)

lemma dell_error_reaction:
  assumes "error r = Some e"
  shows "\<exists>rest. trace (fst (processResponse r s))
      = trace s @ [ConsoleError (Obj e), Failure (Some GENERIC_ERROR)] @ rest"
  using assms
  by (cases "response r"; cases "content r")
     (simp_all add: processResponse_def Let_def)

lemma esxi_error_reaction:
  assumes "error r = Some e"
  shows "trace (fst (soap_callback f r s))
      = trace s @ [ConsoleError (Obj e), Failure (Some GENERIC_ERROR)]"
  using assms by (simp add: soap_callback_def)

lemma upto_failure_head:
  "list_all is_log logs \<Longrightarrow> upto_failure (logs @ Failure t # rest) = logs @ [Failure t]"
  by (induction logs) (auto simp: is_log_def split: event.splits)

lemma upto_ssh_error_head: "upto_failure (ssh_error_head e @ rest) = ssh_error_head e"
  by (cases "message e") (simp_all add: ssh_error_head_def)

text \<open>
  Claim C2, as amended. When the callback of a command or request is invoked with an
  error, what the driver does begins with console logging and a call of \<open>D.failure\<close>,
  and nothing but logging comes before that call: the FreeBSD driver logs the command
  and the error and calls \<open>D.failure()\<close>; the Windows driver logs the message of the
  error if it has one, then calls \<open>D.failure\<close> for an authentication error if the code
  is 5, and otherwise logs the error and calls it for a generic error; the Dell and
  the ESXi driver log the error and call \<open>D.failure\<close> for a generic error. Where
  \<open>D.failure\<close> ends the script, this is all a driver does. In the ESXi driver it is
  all in any case. What the other three do after a \<open>D.failure\<close> that returns is left
  open here (\<open>rest\<close>).
\<close>

theorem errors_fail_first:
  assumes "err r = Some e" and "error q = Some e" and "error p = Some e"
  shows "(\<exists>rest. added s (route_reply v cmd i r s)
            = [ConsoleError (Text (asc ''error while executing command: '' @ cmd)),
               ConsoleError (Obj e), Failure None] @ rest)
       \<and> observed True (added s (route_reply v cmd i r s))
            = [ConsoleError (Text (asc ''error while executing command: '' @ cmd)),
               ConsoleError (Obj e), Failure None]
       \<and> (\<exists>rest. added w (resultCallback hash ip outp (Some e) w) = ssh_error_head e @ rest)
       \<and> observed True (added w (resultCallback hash ip outp (Some e) w)) = ssh_error_head e
       \<and> (\<exists>rest. added d (fst (processResponse q d))
            = [ConsoleError (Obj e), Failure (Some GENERIC_ERROR)] @ rest)
       \<and> observed True (added d (fst (processResponse q d)))
            = [ConsoleError (Obj e), Failure (Some GENERIC_ERROR)]
       \<and> added x (fst (soap_callback f p x)) = [ConsoleError (Obj e), Failure (Some GENERIC_ERROR)]"
proof -
  from freebsd_error_reaction [OF assms(1), of v cmd i s] obtain r1 where
    1: "added s (route_reply v cmd i r s)
        = [ConsoleError (Text (asc ''error while executing command: '' @ cmd)),
           ConsoleError (Obj e), Failure None] @ r1"
    by (auto simp: added_def)
  from windows_error_reaction [of hash ip outp e w] obtain r2 where
    2: "added w (resultCallback hash ip outp (Some e) w) = ssh_error_head e @ r2"
    by (auto simp: added_def)
  from dell_error_reaction [OF assms(2), of d] obtain r3 where
    3: "added d (fst (processResponse q d))
        = [ConsoleError (Obj e), Failure (Some GENERIC_ERROR)] @ r3"
    by (auto simp: added_def)
  have 4: "added x (fst (soap_callback f p x)) = [ConsoleError (Obj e), Failure (Some GENERIC_ERROR)]"
    using esxi_error_reaction [OF assms(3), of f x] by simp
  have o1: "observed True (added s (route_reply v cmd i r s))
            = [ConsoleError (Text (asc ''error while executing command: '' @ cmd)),
               ConsoleError (Obj e), Failure None]"
    unfolding 1 by (simp add: observed_def)
  have o2: "observed True (added w (resultCallback hash ip outp (Some e) w)) = ssh_error_head e"
    unfolding 2 by (simp add: observed_def upto_ssh_error_head)
  have o3: "observed True (added d (fst (processResponse q d)))
            = [ConsoleError (Obj e), Failure (Some GENERIC_ERROR)]"
    unfolding 3 by (simp add: observed_def)
  from 1 2 3 4 o1 o2 o3 show ?thesis by blast
qed

text \<open>A timeout reported to each of the four callbacks.\<close>

theorem errors_fail_first_witness:
  "err \<lparr>request = 0, out = Some (asc ''default 10.0.0.1 UGS em0''),
        err = Some (JsErr (Some (asc ''timed out'')) (Some 255))\<rparr>
     = Some (JsErr (Some (asc ''timed out'')) (Some 255))
 \<and> error \<lparr>req = 0, error = Some (JsErr (Some (asc ''timed out'')) (Some 255)), response = None,
            content = Unparsable\<rparr>
     = Some (JsErr (Some (asc ''timed out'')) (Some 255))
 \<and> error \<lparr>req = 0, error = Some (JsErr (Some (asc ''timed out'')) (Some 255)), response = None,
            content = \<lparr>returnval_key = [], returnval = [], returnval_ref = [], services = []\<rparr>\<rparr>
     = Some (JsErr (Some (asc ''timed out'')) (Some 255))
 \<and> observed True (added windows_get_status_start
       (resultCallback (\<lambda>ip. ip) (asc ''8.8.8.8'') None
          (Some (JsErr (Some (asc ''timed out'')) (Some 255))) windows_get_status_start))
     = [ConsoleError (Text (asc ''timed out'')),
        ConsoleError (Obj (JsErr (Some (asc ''timed out'')) (Some 255))),
        Failure (Some GENERIC_ERROR)]
 \<and> added (esxi_get_status_start (asc ''root'', asc ''secret''))
      (fst (soap_callback getSessionKey
         \<lparr>req = 0, error = Some (JsErr (Some (asc ''timed out'')) (Some 255)), response = None,
            content = \<lparr>returnval_key = [], returnval = [], returnval_ref = [], services = []\<rparr>\<rparr>
         (esxi_get_status_start (asc ''root'', asc ''secret''))))
     = [ConsoleError (Obj (JsErr (Some (asc ''timed out'')) (Some 255))),
        Failure (Some GENERIC_ERROR)]"
proof -
  let ?e = "JsErr (Some (asc ''timed out'')) (Some 255)"
  let ?r = "\<lparr>request = 0, out = Some (asc ''default 10.0.0.1 UGS em0''), err = Some ?e\<rparr>"
  let ?q = "\<lparr>req = 0, error = Some ?e, response = None, content = Unparsable\<rparr>"
  let ?p = "\<lparr>req = 0, error = Some ?e, response = None,
            content = \<lparr>returnval_key = [], returnval = [], returnval_ref = [], services = []\<rparr>\<rparr>"
  have h: "err ?r = Some ?e" "error ?q = Some ?e" "error ?p = Some ?e" by simp_all
  have m: "ssh_error_head ?e
      = [ConsoleError (Text (asc ''timed out'')), ConsoleError (Obj ?e), Failure (Some GENERIC_ERROR)]"
    by (simp add: ssh_error_head_def asc_def)
  from errors_fail_first [OF h, of _ _ _ _ windows_get_status_start "\<lambda>ip. ip" "asc ''8.8.8.8''" None
      _ "esxi_get_status_start (asc ''root'', asc ''secret'')" getSessionKey]
  show ?thesis unfolding m using h by blast
qed

text \<open>
  As the claim is stated (the driver logs the error, calls \<open>D.failure\<close>, and does nothing
  else) it fails. The Windows driver, on an error with code 5 and no message: where
  \<open>D.failure\<close> ends the script nothing is logged, and where it returns the error is
  logged after the first call and \<open>D.failure\<close> is called a second time. The FreeBSD
  driver, where \<open>D.failure\<close> returns: the output that came with the error is split and
  its line inserted into the table.
\<close>

theorem errors_fail_first_counterexample:
  "\<not> log_and_fail (observed True (added windows_get_status_start
       (resultCallback (\<lambda>ip. ip) (asc ''8.8.8.8'') None (Some (JsErr None (Some 5)))
          windows_get_status_start)))
 \<and> \<not> log_and_fail (observed False (added windows_get_status_start
       (resultCallback (\<lambda>ip. ip) (asc ''8.8.8.8'') None (Some (JsErr None (Some 5)))
          windows_get_status_start)))
 \<and> \<not> log_and_fail (observed False (added (freebsd_get_status_start (asc ''admin'', asc ''secret''))
       (route_reply (asc ''ip_v4'') route_v4_cmd 0
          \<lparr>request = 0, out = Some (asc ''default 10.0.0.1 UGS em0''),
            err = Some (JsErr (Some (asc ''exit code 1'')) (Some 1))\<rparr>
          (freebsd_get_status_start (asc ''admin'', asc ''secret'')))))"
proof -
  let ?e = "JsErr None (Some 5)"
  have w: "trace (resultCallback (\<lambda>ip. ip) (asc ''8.8.8.8'') None (Some ?e) windows_get_status_start)
      = trace windows_get_status_start
        @ [Failure (Some AUTHENTICATION_ERROR), ConsoleError (Obj ?e), Failure (Some GENERIC_ERROR)]"
    by (simp add: resultCallback_def checkSshError_def Let_def windows_start failure_def
          console_error_def)
  let ?f = "JsErr (Some (asc ''exit code 1'')) (Some 1)"
  let ?s = "freebsd_get_status_start (asc ''admin'', asc ''secret'')"
  have l: "split_nl (asc ''default 10.0.0.1 UGS em0'') = [asc ''default 10.0.0.1 UGS em0'']"
    by (simp add: asc_def)
  have f: "trace (route_reply (asc ''ip_v4'') route_v4_cmd 0
          \<lparr>request = 0, out = Some (asc ''default 10.0.0.1 UGS em0''), err = Some ?f\<rparr> ?s)
      = trace ?s @ [ConsoleError (Text (asc ''error while executing command: '' @ route_v4_cmd)),
          ConsoleError (Obj ?f), Failure None,
          InsertRecord (fst (route_record (asc ''ip_v4'') (asc ''default 10.0.0.1 UGS em0'')))
            (snd (route_record (asc ''ip_v4'') (asc ''default 10.0.0.1 UGS em0'')))]"
    by (simp add: route_reply_def exec_command_cb_def l insert_route_def route_done_first
          freebsd_start emit_def insertRecord_def failure_def console_error_def)
  show ?thesis
    unfolding added_append [OF w] added_append [OF f]
    by (simp add: observed_def log_and_fail_def is_log_def)
qed

section \<open>Properties of \<open>sanitize\<close>\<close>

lemma unat_lower:
  fixes c :: code_unit
  assumes "0x41 \<le> c" "c \<le> 0x5A"
  shows "unat (c + 0x20) = unat c + 32" "65 \<le> unat c" "unat c \<le> 90"
proof -
  from assms show u: "65 \<le> unat c" "unat c \<le> 90" by (simp_all add: word_le_nat_alt)
  have "unat c + unat (0x20 :: code_unit) < 2 ^ LENGTH(16)" using u by simp
  then have "unat (c + 0x20) = unat c + unat (0x20 :: code_unit)"
    by (simp only: unat_add_lem)
  then show "unat (c + 0x20) = unat c + 32" by simp
qed

lemma not_space_hyphen: "\<not> is_space 0x2D"
  by (simp add: is_space_def)

lemma is_space_unat:
  "is_space c \<longleftrightarrow> unat c \<in> {0x9, 0xA, 0xB, 0xC, 0xD, 0x20, 0xA0, 0x1680, 0x2028, 0x2029, 0x202F,
     0x205F, 0x3000, 0xFEFF} \<or> (0x2000 \<le> unat c \<and> unat c \<le> 0x200A)"
  unfolding is_space_def by (simp add: word_le_nat_alt word_unat_eq_iff)

lemma lower_unit_no_space: "\<not> is_space c \<Longrightarrow> \<forall>d\<in>set (lower_unit c). \<not> is_space d"
proof (cases "0x41 \<le> c \<and> c \<le> 0x5A")
  case True
  then have "unat (c + 0x20) = unat c + 32" "65 \<le> unat c" "unat c \<le> 90"
    by (simp_all add: unat_lower)
  then have "\<not> is_space (c + 0x20)" unfolding is_space_unat by auto
  with True show ?thesis by (simp add: lower_unit_def)
next
  case False
  assume "\<not> is_space c"
  moreover have "\<not> is_space 0x69" "\<not> is_space 0x307" by (simp_all add: is_space_def)
  ultimately show ?thesis using False by (auto simp: lower_unit_def)
qed

lemma lower_unit_no_upper: "\<forall>d\<in>set (lower_unit c). \<not> (0x41 \<le> d \<and> d \<le> 0x5A)"
proof (cases "0x41 \<le> c \<and> c \<le> 0x5A")
  case True
  then have "unat (c + 0x20) = unat c + 32" "65 \<le> unat c" "unat c \<le> 90"
    by (simp_all add: unat_lower)
  then have "\<not> (0x41 \<le> c + 0x20 \<and> c + 0x20 \<le> 0x5A)" by (simp add: word_le_nat_alt)
  with True show ?thesis by (simp add: lower_unit_def)
next
  case False
  then show ?thesis by (auto simp: lower_unit_def)
qed

lemma collapse_ws_no_space: "\<not> is_space d \<or> d \<notin> set (collapse_ws s)"
proof (induction s rule: collapse_ws.induct)
  case 1
  show ?case by simp
next
  case (2 c cs)
  show ?case
  proof (cases "is_space c")
    case True
    with 2(1) have "\<not> is_space d \<or> d \<notin> set (collapse_ws (dropWhile is_space cs))" by simp
    with True show ?thesis using not_space_hyphen by (simp only: collapse_ws.simps if_True) auto
  next
    case False
    with 2(2) have "\<not> is_space d \<or> d \<notin> set (collapse_ws cs)" by simp
    with False show ?thesis by (simp only: collapse_ws.simps if_False) auto
  qed
qed

lemma set_strip_reserved: "set (strip_reserved s) \<subseteq> set s"
proof (induction s rule: strip_reserved.induct)
  case 1
  then show ?case by simp
next
  case (2 c cs)
  show ?case
  proof (cases "find (\<lambda>w. take (length w) (c # cs) = w) recordIdReservedWords")
    case None
    with 2 show ?thesis by auto
  next
    case (Some w)
    with 2 have "set (strip_reserved (drop (length w) (c # cs))) \<subseteq> set (drop (length w) (c # cs))"
      by simp
    also have "\<dots> \<subseteq> set (c # cs)" by (rule set_drop_subset)
    finally show ?thesis using Some by simp
  qed
qed

lemma length_collapse_ws: "length (collapse_ws s) \<le> length s"
proof (induction s rule: collapse_ws.induct)
  case 1
  then show ?case by simp
next
  case (2 c cs)
  have "length (dropWhile is_space cs) \<le> length cs" by (rule length_dropWhile_le)
  with 2 show ?case by auto
qed

lemma set_collapse_ws: "set (collapse_ws s) \<subseteq> insert 0x2D (set s)"
proof (induction s rule: collapse_ws.induct)
  case 1
  then show ?case by simp
next
  case (2 c cs)
  have "set (dropWhile is_space cs) \<subseteq> set cs" by (rule set_dropWhileD [THEN subsetI])
  with 2 show ?case by auto
qed

lemma length_lower_unit: "length (lower_unit c) = (if c = 0x130 then 2 else 1)"
  by (simp add: lower_unit_def)

lemma length_toLowerCase: "length (toLowerCase s) = length s + count_list s 0x130"
  by (induction s) (simp_all add: toLowerCase_def length_lower_unit)

lemma count_list_le: "set xs \<subseteq> insert b (set ys) \<Longrightarrow> a \<notin> set ys \<Longrightarrow> a \<noteq> b \<Longrightarrow> count_list xs a = 0"
  by (auto simp: count_list_0_iff)

text \<open>
  What holds of \<open>sanitize\<close> for every string: the result has no white space and none
  of the letters A to Z, and it is at most 50 code units long unless the input has the
  character U+0130; then each U+0130 among the 50 code units kept adds one.
\<close>

lemma sanitize_bounds:
  "(\<not> is_space c \<and> \<not> (0x41 \<le> c \<and> c \<le> 0x5A) \<or> c \<notin> set (sanitize s))
 \<and> length (sanitize s) \<le> 50 + count_list (collapse_ws (take 50 (strip_reserved s))) 0x130
 \<and> (0x130 \<in> set s \<or> length (sanitize s) \<le> 50)"
proof (intro conjI)
  let ?t = "collapse_ws (take 50 (strip_reserved s))"
  show "\<not> is_space c \<and> \<not> (0x41 \<le> c \<and> c \<le> 0x5A) \<or> c \<notin> set (sanitize s)"
  proof (cases "c \<in> set (sanitize s)")
    case True
    then obtain b where b: "b \<in> set ?t" "c \<in> set (lower_unit b)"
      by (auto simp: sanitize_def toLowerCase_def)
    from b(1) have "\<not> is_space b" using collapse_ws_no_space [of b "take 50 (strip_reserved s)"] by blast
    with b(2) have "\<not> is_space c" using lower_unit_no_space by blast
    moreover from b(2) have "\<not> (0x41 \<le> c \<and> c \<le> 0x5A)" using lower_unit_no_upper by blast
    ultimately show ?thesis by blast
  qed simp
  have l: "length ?t \<le> 50"
    using length_collapse_ws [of "take 50 (strip_reserved s)"] by simp
  then show "length (sanitize s) \<le> 50 + count_list ?t 0x130"
    by (simp add: sanitize_def length_toLowerCase)
  show "0x130 \<in> set s \<or> length (sanitize s) \<le> 50"
  proof (cases "0x130 \<in> set s")
    case False
    have "set ?t \<subseteq> insert 0x2D (set (take 50 (strip_reserved s)))" by (rule set_collapse_ws)
    also have "set (take 50 (strip_reserved s)) \<subseteq> set (strip_reserved s)" by (rule set_take_subset)
    also have "set (strip_reserved s) \<subseteq> set s" by (rule set_strip_reserved)
    finally have "set ?t \<subseteq> insert 0x2D (set s)" by auto
    moreover have "(0x130 :: code_unit) \<noteq> 0x2D" by simp
    ultimately have "count_list ?t 0x130 = 0" using False by (intro count_list_le)
    with l show ?thesis by (simp add: sanitize_def length_toLowerCase)
  qed simp
qed

lemma strip_reserved_dotted: "strip_reserved (replicate n 0x130 @ t) = replicate n 0x130 @ strip_reserved t"
  by (induction n) (simp_all add: recordIdReservedWords_def asc_def)

lemma collapse_ws_dotted: "collapse_ws (replicate n 0x130) = replicate n 0x130"
  by (induction n) (simp_all add: is_space_def)

lemma toLowerCase_dotted: "length (toLowerCase (replicate n 0x130)) = 2 * n"
  by (induction n) (simp_all add: toLowerCase_def lower_unit_def)

lemma sanitize_dotted: "length (sanitize (replicate 50 0x130 @ t)) = 100"
  by (simp add: sanitize_def strip_reserved_dotted collapse_ws_dotted toLowerCase_dotted)

text \<open>
  Claim C9 fails for the length. A controller whose name is fifty times U+0130, with a
  drive \<open>0.1\<close>: \<open>slice(0, 50)\<close> keeps the fifty characters, and \<open>toLowerCase\<close>, applied
  after it, turns each into two code units, so that the record id \<open>extractData\<close>
  inserts has 100.
\<close>

theorem sanitize_too_long:
  "length (sanitize (replicate 50 0x130 @ asc '' '' @ asc ''0.1'')) = 100
 \<and> map (\<lambda>row. length (fst row))
      (table (fst (insert_drive (dell_init, None)
         (Some (replicate 50 0x130,
                \<lparr>Members = None, Name = Some (asc ''0.1''), Drives = None,
                  SerialNumber = Str (asc ''S1''), Placement = Some (Num 0, Num 1),
                  Status = Some (Str (asc ''Enabled''), Str (asc ''OK''))\<rparr>)))))
   = [100]"
  by (simp add: insert_drive_def Let_def sanitize_dotted dell_init_def str_of_def)

section \<open>Every run keeps the order\<close>

subsection \<open>The check along a trace\<close>




text \<open>Events that leave the state of the check as it is.\<close>

lemma order_step_quiet [simp]:
  "order_step st (ConsoleError x) = Some st"
  "order_step st (ConsoleInfo m) = Some st"
  "order_step st (Failure t) = Some st"
  "order_step st (Uncaught ex) = Some st"
  by (simp_all add: order_step_def)


subsection \<open>The check refuses\<close>

lemma in_order_refuses:
  "\<not> in_order h (HttpPost p # HttpGet g # t)"
  "\<not> in_order h (Success x # t)"
  "\<not> in_order h (HttpPost p # Callback 0 # JsonParse # HttpGet g # HttpGet g' # Callback 1
       # JsonParse # Success x # t)"
  "\<not> in_order h (HttpPost p # Callback 0 # HtmlParse # InsertRecord i cols # t)"
  "\<not> in_order h (HttpPost p # Callback 0 # HtmlParse # Success x # HttpPost p' # t)"
  "\<not> in_order h (HttpPost p # Callback 0 # HttpGet g # Callback 1 # Success x # t)"
  "\<not> in_order h (SendSSHCommand c # SendSSHCommand c' # Callback 0 # Success x # t)"
  "\<not> in_order h (SendSSHCommand c # InsertRecord i cols # t)"
  "\<not> in_order h (SendSSHCommand c # Callback 0 # Success x # InsertRecord i cols # t)"
  "\<not> in_order True (HttpPost p # Callback 0 # Failure e # JsonParse # t)"
  by (simp_all add: in_order_def order_init_def order_step_def http_request_def
        parse_response_def is_failure_def)

subsection \<open>The two SSH drivers\<close>









lemma joined_emit [simp]: "joined (emit e s) = joined s"
  by (simp add: emit_def)




subsection \<open>The ESXi driver\<close>



lemma upto_failure_rows [simp]:
  "upto_failure (map (\<lambda>l. InsertRecord (f l) (g l)) ls @ es)
     = map (\<lambda>l. InsertRecord (f l) (g l)) ls @ upto_failure es"
  by (induction ls) simp_all

lemma failure_rows [simp]: "Failure t \<notin> set (map (\<lambda>l. InsertRecord (f l) (g l)) ls)"
  by (induction ls) simp_all

lemma esxi_frame_emit [simp]:
  "issued (emit e s) = issued s" "waiting (emit e s) = waiting s"
  by (simp_all add: emit_def)

lemma sendSoapRequest_simps [simp]:
  "trace (sendSoapRequest p s)
     = trace s @ [HttpPost \<lparr>url = Some (asc ''/sdk''), body = Some (Soap p), x_auth_token = None\<rparr>]"
  "issued (sendSoapRequest p s) = Suc (issued s)"
  "waiting (sendSoapRequest p s)"
  by (simp_all add: sendSoapRequest_def)






subsection \<open>The promises of the Dell driver\<close>















subsection \<open>The Dell driver: the order\<close>

lemma dell_frame_emit [simp]:
  "conts (emit e s) = conts s" "resolved (emit e s) = resolved s"
  "controllers (emit e s) = controllers s" "settled (emit e s) = settled s"
  "sessionToken (emit e s) = sessionToken s"
  by (simp_all add: emit_def)




lemma httpGet_simps [simp]:
  "trace (httpGet u c s)
     = trace s @ [HttpGet \<lparr>url = u, body = None, x_auth_token = sessionToken s\<rparr>]"
  "conts (httpGet u c s) = conts s @ [c]" "resolved (httpGet u c s) = resolved s"
  "controllers (httpGet u c s) = controllers s" "settled (httpGet u c s) = settled s"
  by (simp_all add: httpGet_def)



lemma gets_frame [simp]:
  "conts (foldl (\<lambda>s (i, m). httpGet m (K i) s) s xs) = conts s @ map (\<lambda>(i, m). K i) xs"
  "resolved (foldl (\<lambda>s (i, m). httpGet m (K i) s) s xs) = resolved s"
  "controllers (foldl (\<lambda>s (i, m). httpGet m (K i) s) s xs) = controllers s"
  "settled (foldl (\<lambda>s (i, m). httpGet m (K i) s) s xs) = settled s"
  by (induction xs arbitrary: s) auto


lemma dell_mid_update [simp]:
  "dell_mid X k (s\<lparr>controllers := c\<rparr>) = dell_mid X k s"
  "dell_mid X k (s\<lparr>settled := b\<rparr>) = dell_mid X k s"
  "dell_mid X k (s\<lparr>sessionToken := t\<rparr>) = dell_mid X k s"
  by (simp_all add: dell_mid_def)

lemma insert_drive_frame [simp]:
  "conts (fst (insert_drive sx d)) = conts (fst sx)"
  "resolved (fst (insert_drive sx d)) = resolved (fst sx)"
  "controllers (fst (insert_drive sx d)) = controllers (fst sx)"
  "settled (fst (insert_drive sx d)) = settled (fst sx)"
  by (auto simp: insert_drive_def Let_def insertRecord_def console_error_def failure_def
        split: prod.splits option.splits)











lemma processResponse_frame [simp]:
  "conts (fst (processResponse r s)) = conts s"
  "resolved (fst (processResponse r s)) = resolved s"
  "controllers (fst (processResponse r s)) = controllers s"
  "settled (fst (processResponse r s)) = settled s"
  by (auto simp: processResponse_def Let_def console_error_def failure_def
        split: option.splits json_body.splits)





lemma set_controller_Some:
  "controllers s = Some c \<Longrightarrow> set_controller i p s = s\<lparr>controllers := Some (c[i := p])\<rparr>"
  by (simp add: set_controller_def)






subsection \<open>The four drivers\<close>

lemma successes_more [simp]:
  "successes (HttpPost p # t) = successes t"
  "successes (HttpGet g # t) = successes t"
  "successes (JsonParse # t) = successes t"
  "successes (HtmlParse # t) = successes t"
  by (simp_all add: successes_def)





text \<open>
  Where \<open>D.failure\<close> returns, the Dell driver goes on after a login it has reported as
  failed: \<open>processResponse\<close> resolves the promise of the login whatever it has found,
  and \<open>getControllers\<close> sends its request.
\<close>

lemma dell_fetch_after_failed_login:
  "trace (dell_get_status (asc ''admin'', asc ''wrong'')
     [\<lparr>req = 0, error = None,
       response = Some \<lparr>statusCode = 401, auth_token = None,
                         command_status = Some (asc ''Command failed'')\<rparr>,
       content = Falsy\<rparr>])
   = [HttpPost \<lparr>url = Some (asc ''/redfish/v1/SessionService/Sessions/''),
                body = Some (Credentials (asc ''admin'') (asc ''wrong'')), x_auth_token = None\<rparr>,
      Callback 0,
      ConsoleError (Text (asc ''Session token not found in response headers'')),
      Failure (Some AUTHENTICATION_ERROR),
      JsonParse,
      HttpGet \<lparr>url = Some (asc ''/redfish/v1/Storage''), body = None, x_auth_token = None\<rparr>]"
  by code_simp



end
